theory Spec2Isabelle
  imports Main "HOL-Library.Sublist" "HOL-Library.AList"
begin

section \<open>Library functions the program calls\<close>

subsection \<open>Regular expressions (package regexp)\<close>

text \<open>
  The seven route patterns of \<^verbatim>\<open>cmd/valence\<close> use literals, alternation,
  concatenation, \<^verbatim>\<open>.*\<close> and the anchors \<^verbatim>\<open>^\<close> and \<^verbatim>\<open>$\<close>. A pattern is
  embedded as the regular expression its whole input has to match: every pattern starts with
  \<^verbatim>\<open>^\<close>, a pattern that does not end in \<^verbatim>\<open>$\<close> is followed by \<open>AnyStar\<close>
  (any continuation), and \<^verbatim>\<open>(/|$)\<close> is "a slash and any continuation, or nothing".
  \<open>Dot\<close> is Go's \<^verbatim>\<open>.\<close>: any character but the newline.
\<close>

datatype regexp =
    Void
  | Eps
  | Lit char
  | Dot
  | AnyChar
  | Alt regexp regexp
  | Cat regexp regexp
  | Star regexp

fun nullable :: "regexp \<Rightarrow> bool" where
  "nullable Void = False"
| "nullable Eps = True"
| "nullable (Lit c) = False"
| "nullable Dot = False"
| "nullable AnyChar = False"
| "nullable (Alt r s) = (nullable r \<or> nullable s)"
| "nullable (Cat r s) = (nullable r \<and> nullable s)"
| "nullable (Star r) = True"

fun deriv :: "char \<Rightarrow> regexp \<Rightarrow> regexp" where
  "deriv c Void = Void"
| "deriv c Eps = Void"
| "deriv c (Lit d) = (if c = d then Eps else Void)"
| "deriv c Dot = (if c = CHR 0x0A then Void else Eps)"
| "deriv c AnyChar = Eps"
| "deriv c (Alt r s) = Alt (deriv c r) (deriv c s)"
| "deriv c (Cat r s) =
     (if nullable r then Alt (Cat (deriv c r) s) (deriv c s) else Cat (deriv c r) s)"
| "deriv c (Star r) = Cat (deriv c r) (Star r)"

fun MatchString :: "regexp \<Rightarrow> string \<Rightarrow> bool" where
  "MatchString r [] = nullable r"
| "MatchString r (c # cs) = MatchString (deriv c r) cs"

fun str :: "string \<Rightarrow> regexp" where
  "str [] = Eps"
| "str (c # cs) = Cat (Lit c) (str cs)"

fun alts :: "string list \<Rightarrow> regexp" where
  "alts [] = Void"
| "alts (w # ws) = Alt (str w) (alts ws)"

definition AnyStar :: regexp where
  "AnyStar = Star AnyChar"

definition DotStar :: regexp where
  "DotStar = Star Dot"

text \<open>The language of a regular expression, to reason about \<open>MatchString\<close>.\<close>

inductive_set star :: "string set \<Rightarrow> string set" for A :: "string set" where
  star_nil: "[] \<in> star A"
| star_app: "u \<in> A \<Longrightarrow> v \<in> star A \<Longrightarrow> u @ v \<in> star A"

definition conc :: "string set \<Rightarrow> string set \<Rightarrow> string set" where
  "conc A B = {u @ v | u v. u \<in> A \<and> v \<in> B}"

fun lang :: "regexp \<Rightarrow> string set" where
  "lang Void = {}"
| "lang Eps = {[]}"
| "lang (Lit c) = {[c]}"
| "lang Dot = {[c] | c. c \<noteq> CHR 0x0A}"
| "lang AnyChar = {[c] | c. True}"
| "lang (Alt r s) = lang r \<union> lang s"
| "lang (Cat r s) = conc (lang r) (lang s)"
| "lang (Star r) = star (lang r)"

subsection \<open>Lexical path cleaning (path.Clean, filepath.Clean, filepath.Join)\<close>

text \<open>
  \<^verbatim>\<open>path.Clean\<close> as the standard library writes it: a read position in the path and a
  write buffer \<open>out\<close> (the first \<open>w\<close> bytes of Go's \<^verbatim>\<open>lazybuf\<close>); \<open>dotdot\<close> is the
  index in the buffer below which \<^verbatim>\<open>..\<close> cannot backtrack. The loop is a recursion on the
  unread rest of the path.
\<close>

function backtrack :: "nat \<Rightarrow> nat \<Rightarrow> string \<Rightarrow> nat" where
  "backtrack dotdot w buf =
     (if w > dotdot \<and> buf ! w \<noteq> CHR ''/'' then backtrack dotdot (w - 1) buf else w)"
  by pat_completeness auto
termination
  by (relation "measure (\<lambda>(dotdot, w, buf). w)") auto

declare backtrack.simps [simp del]

function clean_loop :: "bool \<Rightarrow> nat \<Rightarrow> string \<Rightarrow> string \<Rightarrow> string" where
  "clean_loop rooted dotdot out [] = out"
| "clean_loop rooted dotdot out (c # cs) =
     (if c = CHR ''/'' then clean_loop rooted dotdot out cs
      else if c = CHR ''.'' \<and> (cs = [] \<or> hd cs = CHR ''/'') then clean_loop rooted dotdot out cs
      else if c = CHR ''.'' \<and> hd cs = CHR ''.'' \<and> (tl cs = [] \<or> hd (tl cs) = CHR ''/'') then
        (if length out > dotdot then
           clean_loop rooted dotdot (take (backtrack dotdot (length out - 1) out) out) (tl cs)
         else if \<not> rooted then
           clean_loop rooted (length ((if length out > 0 then out @ ''/'' else out) @ ''..''))
             ((if length out > 0 then out @ ''/'' else out) @ ''..'') (tl cs)
         else clean_loop rooted dotdot out (tl cs))
      else
        clean_loop rooted dotdot
          ((if rooted \<and> length out \<noteq> 1 \<or> \<not> rooted \<and> length out \<noteq> 0 then out @ ''/'' else out)
             @ takeWhile (\<lambda>x. x \<noteq> CHR ''/'') (c # cs))
          (dropWhile (\<lambda>x. x \<noteq> CHR ''/'') (c # cs)))"
  by pat_completeness auto
termination
proof (relation "measure (\<lambda>(rooted, dotdot, out, p). length p)", goal_cases)
  case 1
  show ?case by simp
next
  case (2 rooted dotdot out c cs)
  show ?case by simp
next
  case (3 rooted dotdot out c cs)
  show ?case by simp
next
  case (4 rooted dotdot out c cs)
  show ?case by simp
next
  case (5 rooted dotdot out c cs)
  show ?case by simp
next
  case (6 rooted dotdot out c cs)
  show ?case by simp
next
  case (7 rooted dotdot out c cs)
  have "length (dropWhile (\<lambda>x. x \<noteq> CHR ''/'') cs) \<le> length cs"
    by (rule length_dropWhile_le)
  with 7(1) show ?case by simp
qed

declare clean_loop.simps(2) [simp del]

definition path_Clean :: "string \<Rightarrow> string" where
  "path_Clean p =
     (if p = [] then ''.''
      else
        (let rooted = (hd p = CHR ''/'');
             out = (if rooted then clean_loop True 1 ''/'' (tl p) else clean_loop False 0 [] p)
         in if out = [] then ''.'' else out))"

text \<open>On Unix \<^verbatim>\<open>filepath.Clean\<close> is the same function, and \<^verbatim>\<open>filepath.FromSlash\<close> is the
  identity.\<close>

definition filepath_Clean :: "string \<Rightarrow> string" where
  "filepath_Clean p = path_Clean p"

fun strings_Join :: "string list \<Rightarrow> string \<Rightarrow> string" where
  "strings_Join [] sep = []"
| "strings_Join [e] sep = e"
| "strings_Join (e # es) sep = e @ sep @ strings_Join es sep"

fun filepath_Join :: "string list \<Rightarrow> string" where
  "filepath_Join [] = []"
| "filepath_Join (e # es) =
     (if e \<noteq> [] then filepath_Clean (strings_Join (e # es) ''/'') else filepath_Join es)"

definition filepath_IsAbs :: "string \<Rightarrow> bool" where
  "filepath_IsAbs p = prefix ''/'' p"

definition strings_HasPrefix :: "string \<Rightarrow> string \<Rightarrow> bool" where
  "strings_HasPrefix s pre = prefix pre s"

definition strings_TrimPrefix :: "string \<Rightarrow> string \<Rightarrow> string" where
  "strings_TrimPrefix s pre = (if prefix pre s then drop (length pre) s else s)"

definition strings_Contains :: "string \<Rightarrow> string \<Rightarrow> bool" where
  "strings_Contains s sub = sublist sub s"

section \<open>Errors and file information\<close>

text \<open>
  The errors the program creates itself (\<^verbatim>\<open>errors.New\<close>, \<^verbatim>\<open>fmt.Errorf\<close>) and the file
  system errors of package \<^verbatim>\<open>os\<close> it can receive. \<open>ErrAtomRootExists\<close> is the exported
  sentinel of package \<^verbatim>\<open>atomembed\<close>.
\<close>

datatype error =
    ErrAtomRootPathEmpty
  | ErrAtomRootNotDirectory
  | ErrAtomRootExists
  | ErrArchiveNotAvailable
  | ErrArchiveInvalidPath
  | ErrGzipHeader
  | ErrTarStream
  | ErrSrcDirRequired
  | ErrAtomRootNotFound
  | ErrFrontControllerNotFound
  | ENOENT
  | ENOTDIR
  | EISDIR
  | EEXIST
  | ELOOP

definition isNotExist :: "error \<Rightarrow> bool" where
  "isNotExist e = (e = ENOENT)"

definition isExist :: "error \<Rightarrow> bool" where
  "isExist e = (e = EEXIST)"

datatype fileInfo = FileInfo (IsDir: bool) (Perm: nat)

text \<open>What \<^verbatim>\<open>os.Stat\<close> answers for a path: the file system as the router sees it.\<close>

type_synonym statfn = "string \<Rightarrow> error + fileInfo"

section \<open>The request router (cmd/valence)\<close>

subsection \<open>Route patterns\<close>

definition staticAssetRe :: regexp where
  "staticAssetRe =
     Cat (Lit CHR ''/'')
       (Cat (alts [''css'', ''dist'', ''js'', ''images'', ''plugins'', ''vendor''])
         (Cat (Lit CHR ''/'')
           (Cat DotStar
             (Cat (Lit CHR ''.'')
               (alts [''css'', ''png'', ''jpg'', ''js'', ''svg'', ''ico'', ''gif'', ''pdf'',
                      ''woff'', ''woff2'', ''otf'', ''ttf''])))))"

definition downloadAssetRe :: regexp where
  "downloadAssetRe =
     Cat (Lit CHR ''/'')
       (Cat (alts [''downloads''])
         (Cat (Lit CHR ''/'')
           (Cat DotStar
             (Cat (Lit CHR ''.'')
               (alts [''pdf'', ''xml'', ''html'', ''csv'', ''zip'', ''rtf''])))))"

definition publicFileRe :: regexp where
  "publicFileRe =
     Cat (Lit CHR ''/'')
       (Alt (str ''ead.dtd'')
         (Alt (str ''favicon.ico'')
           (Alt (str ''robots.txt'') (Cat (str ''sitemap'') DotStar))))"

definition uploadsConfRe :: regexp where
  "uploadsConfRe = Cat (str ''/uploads/r/'') (Cat DotStar (Cat (str ''/conf/'') AnyStar))"

definition uploadsAssetRe :: regexp where
  "uploadsAssetRe = Cat (str ''/uploads/r/'') DotStar"

definition privatePathRe :: regexp where
  "privatePathRe = Cat (str ''/private/'') AnyStar"

definition phpEntryRe :: regexp where
  "phpEntryRe =
     Cat (Lit CHR ''/'')
       (Cat (alts [''index'', ''qubit_dev''])
         (Cat (str ''.php'') (Alt (Cat (Lit CHR ''/'') AnyStar) Eps)))"

subsection \<open>Path normalisation\<close>

definition cleanPath :: "string \<Rightarrow> string" where
  "cleanPath requestPath =
     (let clean = path_Clean (''/'' @ requestPath)
      in if strings_Contains clean ''..'' then ''/'' else clean)"

definition stripLegacyFrontController :: "string \<Rightarrow> string" where
  "stripLegacyFrontController reqPath =
     (if strings_HasPrefix reqPath ''/index.php/'' then
        ''/'' @ strings_TrimPrefix reqPath ''/index.php/''
      else if strings_HasPrefix reqPath ''/qubit_dev.php/'' then
        ''/'' @ strings_TrimPrefix reqPath ''/qubit_dev.php/''
      else if reqPath = ''/index.php'' \<or> reqPath = ''/qubit_dev.php'' then ''/''
      else [])"

definition rewriteStoragePath :: "string \<Rightarrow> string" where
  "rewriteStoragePath reqPath =
     (if reqPath = ''/storage/location/list'' then ''/storage/list'' else [])"

text \<open>
  The two rewrites as \<^verbatim>\<open>ServeHTTP\<close> applies them: a rewrite that returns the empty string
  leaves the path as it is. \<open>normalizePath\<close> is the value of \<^verbatim>\<open>reqPath\<close> when
  \<^verbatim>\<open>ServeHTTP\<close> calls \<^verbatim>\<open>decideRoute\<close>.
\<close>

definition stripStep :: "string \<Rightarrow> string" where
  "stripStep reqPath =
     (let rewritten = stripLegacyFrontController reqPath
      in if rewritten \<noteq> [] then rewritten else reqPath)"

definition aliasStep :: "string \<Rightarrow> string" where
  "aliasStep reqPath =
     (let rewritten = rewriteStoragePath reqPath
      in if rewritten \<noteq> [] then rewritten else reqPath)"

definition normalizePath :: "string \<Rightarrow> string" where
  "normalizePath urlPath = aliasStep (stripStep (cleanPath urlPath))"

subsection \<open>The routing decision\<close>

record http_Request =
  Method :: string
  URL_Path :: string
  Header :: "(string \<times> string list) list"
  Body :: string

datatype http_Handler =
    NotFoundHandler
  | forbiddenHandler
  | fallback
  | serveStatic string

record routeDecision =
  label :: string
  handler :: http_Handler

record atomHandler =
  phpRoot :: string
  frontController :: string
  atomDataDir :: string

fun firstRegular :: "statfn \<Rightarrow> string list \<Rightarrow> string \<times> bool" where
  "firstRegular stat [] = ([], False)"
| "firstRegular stat (candidate # rest) =
     (case stat candidate of
        Inl err \<Rightarrow> firstRegular stat rest
      | Inr info \<Rightarrow> if IsDir info then firstRegular stat rest else (candidate, True))"

definition candidates :: "atomHandler \<Rightarrow> string \<Rightarrow> string list" where
  "candidates h requestPath =
     (let rel = strings_TrimPrefix requestPath ''/''
      in (if atomDataDir h \<noteq> [] \<and> MatchString downloadAssetRe requestPath
          then [filepath_Join [atomDataDir h, rel]] else [])
         @ [filepath_Join [phpRoot h, rel]])"

definition staticAssetPath :: "atomHandler \<Rightarrow> statfn \<Rightarrow> string \<Rightarrow> string \<times> bool" where
  "staticAssetPath h stat requestPath = firstRegular stat (candidates h requestPath)"

definition existsOnDisk :: "atomHandler \<Rightarrow> statfn \<Rightarrow> string \<Rightarrow> bool" where
  "existsOnDisk h stat requestPath =
     (let rel = strings_TrimPrefix requestPath ''/'';
          candidate = filepath_Join [phpRoot h, rel]
      in case stat candidate of Inl err \<Rightarrow> False | Inr info \<Rightarrow> \<not> IsDir info)"

definition matchesStatic :: "string \<Rightarrow> bool" where
  "matchesStatic reqPath =
     (if MatchString staticAssetRe reqPath then True
      else if MatchString downloadAssetRe reqPath then True
      else MatchString publicFileRe reqPath)"

definition decideRoute :: "atomHandler \<Rightarrow> statfn \<Rightarrow> http_Request \<Rightarrow> string \<Rightarrow> routeDecision" where
  "decideRoute h stat r reqPath =
     (if MatchString privatePathRe reqPath then
        \<lparr>label = ''deny_private'', handler = NotFoundHandler\<rparr>
      else if MatchString uploadsConfRe reqPath then
        \<lparr>label = ''deny_uploads_conf'', handler = forbiddenHandler\<rparr>
      else if MatchString phpEntryRe reqPath then
        \<lparr>label = ''php_entry'', handler = fallback\<rparr>
      else if matchesStatic reqPath then
        (case staticAssetPath h stat reqPath of
           (assetPath, True) \<Rightarrow> \<lparr>label = ''static'', handler = serveStatic assetPath\<rparr>
         | (assetPath, False) \<Rightarrow> \<lparr>label = ''static_missing'', handler = NotFoundHandler\<rparr>)
      else if MatchString uploadsAssetRe reqPath then
        \<lparr>label = ''uploads_front_controller'', handler = fallback\<rparr>
      else if existsOnDisk h stat reqPath then
        \<lparr>label = ''deny_direct_file'', handler = forbiddenHandler\<rparr>
      else \<lparr>label = ''front_controller'', handler = fallback\<rparr>)"

text \<open>
  \<^verbatim>\<open>ServeHTTP\<close> up to the dispatch: the request with its rewritten path, and the decision
  taken on it.
\<close>

definition ServeHTTP :: "atomHandler \<Rightarrow> statfn \<Rightarrow> http_Request \<Rightarrow> http_Request \<times> routeDecision" where
  "ServeHTTP h stat r =
     (let reqPath = normalizePath (URL_Path r);
          r' = r\<lparr>URL_Path := reqPath\<rparr>
      in (r', decideRoute h stat r' reqPath))"

text \<open>A candidate counts as found when \<^verbatim>\<open>os.Stat\<close> succeeds on it and it is not a
  directory (the test of the loop in \<^verbatim>\<open>staticAssetPath\<close> and of \<^verbatim>\<open>existsOnDisk\<close>).\<close>

definition isRegularFile :: "statfn \<Rightarrow> string \<Rightarrow> bool" where
  "isRegularFile stat p = (case stat p of Inl err \<Rightarrow> False | Inr info \<Rightarrow> \<not> IsDir info)"

subsection \<open>A sample handler and file system view\<close>

definition h0 :: atomHandler where
  "h0 = \<lparr>phpRoot = ''/srv/atom'', frontController = ''/srv/atom/index.php'', atomDataDir = ''/data''\<rparr>"

definition stat0 :: statfn where
  "stat0 p =
     (if p = ''/data/downloads/a.pdf'' \<or> p = ''/srv/atom/downloads/a.pdf'' then Inr (FileInfo False 420)
      else if p = ''/srv/atom/images/x.png'' then Inr (FileInfo True 493)
      else Inl ENOENT)"


subsection \<open>Clean paths\<close>

text \<open>
  The shape of a cleaned rooted path, used to state what \<^verbatim>\<open>path.Clean\<close> returns: a
  slash-separated list of segments, none of them empty, \<^verbatim>\<open>.\<close> or \<^verbatim>\<open>..\<close>; the root
  alone when there is no segment. \<open>atBoundary\<close> says that the unread rest of a path starts a
  new element. A clean request path is such a path without the sequence \<^verbatim>\<open>..\<close>.
\<close>

definition validSegment :: "string \<Rightarrow> bool" where
  "validSegment s = (s \<noteq> [] \<and> CHR ''/'' \<notin> set s \<and> s \<noteq> ''.'' \<and> s \<noteq> ''..'')"

definition slashed :: "string list \<Rightarrow> string" where
  "slashed segs = concat (map (\<lambda>s. CHR ''/'' # s) segs)"

definition rootedPath :: "string list \<Rightarrow> string" where
  "rootedPath segs = (if segs = [] then ''/'' else slashed segs)"

definition atBoundary :: "string \<Rightarrow> bool" where
  "atBoundary rest = (rest = [] \<or> hd rest = CHR ''/'')"

definition cleanRequestPath :: "string \<Rightarrow> bool" where
  "cleanRequestPath q =
     (\<exists>segs. list_all validSegment segs \<and> q = rootedPath segs \<and> \<not> strings_Contains q ''..'')"

section \<open>Strings and encodings (packages strings, encoding/hex, strconv)\<close>

text \<open>
  \<^verbatim>\<open>strings.TrimSpace\<close> removes leading and trailing white space as Unicode defines it. A
  string is a list of bytes, so the white space runes are listed in their UTF-8 encoding:
  the six ASCII ones, U+0085, U+00A0, U+1680, U+2000 to U+200A, U+2028, U+2029, U+202F, U+205F
  and U+3000.
\<close>

definition unicodeSpaces :: "string list" where
  "unicodeSpaces =
     [[CHR 0x09], [CHR 0x0A], [CHR 0x0B], [CHR 0x0C], [CHR 0x0D], [CHR 0x20],
      [CHR 0xC2, CHR 0x85], [CHR 0xC2, CHR 0xA0],
      [CHR 0xE1, CHR 0x9A, CHR 0x80],
      [CHR 0xE2, CHR 0x80, CHR 0x80], [CHR 0xE2, CHR 0x80, CHR 0x81],
      [CHR 0xE2, CHR 0x80, CHR 0x82], [CHR 0xE2, CHR 0x80, CHR 0x83],
      [CHR 0xE2, CHR 0x80, CHR 0x84], [CHR 0xE2, CHR 0x80, CHR 0x85],
      [CHR 0xE2, CHR 0x80, CHR 0x86], [CHR 0xE2, CHR 0x80, CHR 0x87],
      [CHR 0xE2, CHR 0x80, CHR 0x88], [CHR 0xE2, CHR 0x80, CHR 0x89],
      [CHR 0xE2, CHR 0x80, CHR 0x8A],
      [CHR 0xE2, CHR 0x80, CHR 0xA8], [CHR 0xE2, CHR 0x80, CHR 0xA9],
      [CHR 0xE2, CHR 0x80, CHR 0xAF],
      [CHR 0xE2, CHR 0x81, CHR 0x9F],
      [CHR 0xE3, CHR 0x80, CHR 0x80]]"

definition leadingSpace :: "string \<Rightarrow> nat" where
  "leadingSpace s =
     (case find (\<lambda>w. prefix w s) unicodeSpaces of None \<Rightarrow> 0 | Some w \<Rightarrow> length w)"

definition trailingSpace :: "string \<Rightarrow> nat" where
  "trailingSpace s =
     (case find (\<lambda>w. suffix w s) unicodeSpaces of None \<Rightarrow> 0 | Some w \<Rightarrow> length w)"

function trimLeft :: "string \<Rightarrow> string" where
  "trimLeft s =
     (if leadingSpace s = 0 \<or> s = [] then s else trimLeft (drop (leadingSpace s) s))"
  by pat_completeness auto
termination
  by (relation "measure length") auto

declare trimLeft.simps [simp del]

function trimRight :: "string \<Rightarrow> string" where
  "trimRight s =
     (if trailingSpace s = 0 \<or> s = [] then s
      else trimRight (take (length s - trailingSpace s) s))"
  by pat_completeness auto
termination
  by (relation "measure length") auto

declare trimRight.simps [simp del]

definition strings_TrimSpace :: "string \<Rightarrow> string" where
  "strings_TrimSpace s = trimRight (trimLeft s)"

definition hextable :: string where
  "hextable = ''0123456789abcdef''"

fun hex_EncodeToString :: "string \<Rightarrow> string" where
  "hex_EncodeToString [] = []"
| "hex_EncodeToString (b # bs) =
     hextable ! ((of_char b :: nat) div 16) # hextable ! ((of_char b :: nat) mod 16)
       # hex_EncodeToString bs"

definition strconv_ParseBool :: "string \<Rightarrow> bool option" where
  "strconv_ParseBool s =
     (if s \<in> set [''1'', ''t'', ''T'', ''TRUE'', ''true'', ''True''] then Some True
      else if s \<in> set [''0'', ''f'', ''F'', ''FALSE'', ''false'', ''False''] then Some False
      else None)"

section \<open>The file system (package os)\<close>

text \<open>
  The file system is a finite table from path names to nodes. Path names are the clean
  paths that \<^verbatim>\<open>filepath.Abs\<close> and \<^verbatim>\<open>filepath.Join\<close> produce; the root and the current
  directory always exist. Permission bits are recorded and not enforced, symbolic links are
  recorded and not resolved: an operation that would have to follow a link fails with
  \<open>ELOOP\<close>. An operation fails only for what the table holds (a missing parent, a file where
  a directory is needed, an existing name), never for want of space or rights.
\<close>

datatype node = File nat string | Dir nat | Symlink string

type_synonym filesys = "(string \<times> node) list"

definition lookup :: "filesys \<Rightarrow> string \<Rightarrow> node option" where
  "lookup fs p = (if p = ''/'' \<or> p = ''.'' then Some (Dir 493) else map_of fs p)"

definition parentDir :: "string \<Rightarrow> string" where
  "parentDir p =
     (let d = rev (dropWhile (\<lambda>c. c \<noteq> CHR ''/'') (rev p))
      in if d = [] then ''.'' else if d = ''/'' then ''/'' else butlast d)"

definition within :: "string \<Rightarrow> string \<Rightarrow> bool" where
  "within dir p = (p = dir \<or> prefix (if dir = ''/'' then dir else dir @ ''/'') p)"

definition os_Stat :: "filesys \<Rightarrow> statfn" where
  "os_Stat fs p =
     (case lookup fs p of
        None \<Rightarrow> Inl ENOENT
      | Some (File m d) \<Rightarrow> Inr (FileInfo False m)
      | Some (Dir m) \<Rightarrow> Inr (FileInfo True m)
      | Some (Symlink t) \<Rightarrow> Inl ELOOP)"

definition os_ReadFile :: "filesys \<Rightarrow> string \<Rightarrow> error + string" where
  "os_ReadFile fs p =
     (case lookup fs p of
        None \<Rightarrow> Inl ENOENT
      | Some (File m d) \<Rightarrow> Inr d
      | Some (Dir m) \<Rightarrow> Inl EISDIR
      | Some (Symlink t) \<Rightarrow> Inl ELOOP)"

definition os_ReadDir :: "filesys \<Rightarrow> string \<Rightarrow> error + string list" where
  "os_ReadDir fs p =
     (case lookup fs p of
        None \<Rightarrow> Inl ENOENT
      | Some (File m d) \<Rightarrow> Inl ENOTDIR
      | Some (Dir m) \<Rightarrow> Inr (filter (\<lambda>k. parentDir k = p \<and> k \<noteq> p) (remdups (map fst fs)))
      | Some (Symlink t) \<Rightarrow> Inl ELOOP)"

definition os_RemoveAll :: "filesys \<Rightarrow> string \<Rightarrow> filesys \<times> error option" where
  "os_RemoveAll fs p = (filter (\<lambda>(k, n). \<not> within p k) fs, None)"

definition createIn :: "filesys \<Rightarrow> string \<Rightarrow> node \<Rightarrow> filesys \<times> error option" where
  "createIn fs p n =
     (case lookup fs (parentDir p) of
        None \<Rightarrow> (fs, Some ENOENT)
      | Some (File m d) \<Rightarrow> (fs, Some ENOTDIR)
      | Some (Dir m) \<Rightarrow> (AList.update p n fs, None)
      | Some (Symlink t) \<Rightarrow> (fs, Some ELOOP))"

definition os_Mkdir :: "filesys \<Rightarrow> string \<Rightarrow> nat \<Rightarrow> filesys \<times> error option" where
  "os_Mkdir fs p perm =
     (case lookup fs p of
        Some n \<Rightarrow> (fs, Some EEXIST)
      | None \<Rightarrow> createIn fs p (Dir perm))"

definition mkdirLast :: "filesys \<Rightarrow> string \<Rightarrow> nat \<Rightarrow> filesys \<times> error option" where
  "mkdirLast fs p perm =
     (case os_Mkdir fs p perm of
        (fs', None) \<Rightarrow> (fs', None)
      | (fs', Some err) \<Rightarrow>
          (case lookup fs' p of Some (Dir m) \<Rightarrow> (fs', None) | _ \<Rightarrow> (fs', Some err)))"

function os_MkdirAll :: "filesys \<Rightarrow> string \<Rightarrow> nat \<Rightarrow> filesys \<times> error option" where
  "os_MkdirAll fs p perm =
     (case os_Stat fs p of
        Inr info \<Rightarrow> if IsDir info then (fs, None) else (fs, Some ENOTDIR)
      | Inl err \<Rightarrow>
          if length (parentDir p) < length p \<and> parentDir p \<noteq> ''/'' \<and> parentDir p \<noteq> ''.'' then
            (case os_MkdirAll fs (parentDir p) perm of
               (fs', Some e) \<Rightarrow> (fs', Some e)
             | (fs', None) \<Rightarrow> mkdirLast fs' p perm)
          else mkdirLast fs p perm)"
  by pat_completeness auto
termination
  by (relation "measure (\<lambda>(fs, p, perm). length p)") auto

declare os_MkdirAll.simps [simp del]

text \<open>\<^verbatim>\<open>os.OpenFile\<close> with \<^verbatim>\<open>O_CREATE|O_TRUNC|O_WRONLY\<close>, and a write to the open file.\<close>

definition os_OpenFile :: "filesys \<Rightarrow> string \<Rightarrow> nat \<Rightarrow> filesys \<times> error option" where
  "os_OpenFile fs p perm =
     (case lookup fs p of
        Some (Dir m) \<Rightarrow> (fs, Some EISDIR)
      | Some (Symlink t) \<Rightarrow> (fs, Some ELOOP)
      | Some (File m d) \<Rightarrow> (AList.update p (File m []) fs, None)
      | None \<Rightarrow> createIn fs p (File perm []))"

definition file_Write :: "filesys \<Rightarrow> string \<Rightarrow> string \<Rightarrow> filesys" where
  "file_Write fs p bytes =
     (case lookup fs p of
        Some (File m d) \<Rightarrow> AList.update p (File m (d @ bytes)) fs
      | _ \<Rightarrow> fs)"

definition os_WriteFile :: "filesys \<Rightarrow> string \<Rightarrow> string \<Rightarrow> nat \<Rightarrow> filesys \<times> error option" where
  "os_WriteFile fs p bytes perm =
     (case os_OpenFile fs p perm of
        (fs', Some err) \<Rightarrow> (fs', Some err)
      | (fs', None) \<Rightarrow> (file_Write fs' p bytes, None))"

definition os_Symlink :: "filesys \<Rightarrow> string \<Rightarrow> string \<Rightarrow> filesys \<times> error option" where
  "os_Symlink fs oldname newname =
     (case lookup fs newname of
        Some n \<Rightarrow> (fs, Some EEXIST)
      | None \<Rightarrow> createIn fs newname (Symlink oldname))"

definition filepath_Dir :: "string \<Rightarrow> string" where
  "filepath_Dir p = filepath_Clean (rev (dropWhile (\<lambda>c. c \<noteq> CHR ''/'') (rev p)))"

definition filepath_Abs :: "string \<Rightarrow> string \<Rightarrow> string" where
  "filepath_Abs wd p = (if filepath_IsAbs p then filepath_Clean p else filepath_Join [wd, p])"

section \<open>The embedded archive (internal/atomembed)\<close>

text \<open>
  The embedded snapshot: its bytes, their SHA-256 sum, and what \<^verbatim>\<open>compress/gzip\<close> and
  \<^verbatim>\<open>archive/tar\<close> read from them: an error of the gzip header or none, the entries in
  order, and how the stream ends (\<open>None\<close> for \<^verbatim>\<open>io.EOF\<close>, an error when the next header
  cannot be read). An entry carries the bytes \<^verbatim>\<open>io.Copy\<close> delivers and the error that
  stops the copy, if any.
\<close>

datatype typeflag = TypeReg | TypeRegA | TypeDir | TypeSymlink | TypeOther

record tar_entry =
  Name :: string
  Typeflag :: typeflag
  Mode :: nat
  Linkname :: string
  Data :: string
  CopyErr :: "error option"

record snapshot =
  archiveData :: string
  sum256 :: string
  gzipErr :: "error option"
  entries :: "tar_entry list"
  streamErr :: "error option"

definition markerFile :: string where
  "markerFile = ''.valence-atom-version''"

definition ArchiveAvailable :: "snapshot \<Rightarrow> bool" where
  "ArchiveAvailable snap = (length (archiveData snap) > 0)"

definition ArchiveHash :: "snapshot \<Rightarrow> string" where
  "ArchiveHash snap = hex_EncodeToString (sum256 snap)"

definition markerMatches :: "snapshot \<Rightarrow> filesys \<Rightarrow> string \<Rightarrow> bool" where
  "markerMatches snap fs target =
     (case os_ReadFile fs (filepath_Join [target, markerFile]) of
        Inl err \<Rightarrow> False
      | Inr contents \<Rightarrow> strings_TrimSpace contents = ArchiveHash snap)"

definition dirEmpty :: "filesys \<Rightarrow> string \<Rightarrow> bool" where
  "dirEmpty fs target =
     (case os_ReadDir fs target of
        Inl err \<Rightarrow> False
      | Inr ents \<Rightarrow> length ents = 0)"

definition writeRegular :: "filesys \<Rightarrow> string \<Rightarrow> tar_entry \<Rightarrow> filesys \<times> error option" where
  "writeRegular fs dstPath hdr =
     (case os_MkdirAll fs (filepath_Dir dstPath) 493 of
        (fs1, Some err) \<Rightarrow> (fs1, Some err)
      | (fs1, None) \<Rightarrow>
          (case os_OpenFile fs1 dstPath (Mode hdr mod 512) of
             (fs2, Some err) \<Rightarrow> (fs2, Some err)
           | (fs2, None) \<Rightarrow>
               (case CopyErr hdr of
                  Some err \<Rightarrow> (file_Write fs2 dstPath (Data hdr), Some err)
                | None \<Rightarrow> (file_Write fs2 dstPath (Data hdr), None))))"

definition writeSymlink :: "filesys \<Rightarrow> string \<Rightarrow> tar_entry \<Rightarrow> filesys \<times> error option" where
  "writeSymlink fs dstPath hdr =
     (case os_MkdirAll fs (filepath_Dir dstPath) 493 of
        (fs1, Some err) \<Rightarrow> (fs1, Some err)
      | (fs1, None) \<Rightarrow>
          (case os_Symlink fs1 (Linkname hdr) dstPath of
             (fs2, Some err) \<Rightarrow> if isExist err then (fs2, None) else (fs2, Some err)
           | (fs2, None) \<Rightarrow> (fs2, None)))"

text \<open>One turn of the loop of \<^verbatim>\<open>extractArchive\<close>: the entry is written, or skipped, or the
  extraction stops with an error.\<close>

definition extractEntry :: "filesys \<Rightarrow> string \<Rightarrow> tar_entry \<Rightarrow> filesys \<times> error option" where
  "extractEntry fs target hdr =
     (if Name hdr = [] then (fs, None)
      else
        (let cleanName = filepath_Clean (Name hdr)
         in if strings_HasPrefix cleanName ''..'' \<or> filepath_IsAbs cleanName then
              (fs, Some ErrArchiveInvalidPath)
            else
              (let dstPath = filepath_Join [target, cleanName]
               in case Typeflag hdr of
                    TypeDir \<Rightarrow> os_MkdirAll fs dstPath (Mode hdr mod 512)
                  | TypeSymlink \<Rightarrow> writeSymlink fs dstPath hdr
                  | TypeReg \<Rightarrow> writeRegular fs dstPath hdr
                  | TypeRegA \<Rightarrow> writeRegular fs dstPath hdr
                  | TypeOther \<Rightarrow> (fs, None))))"

fun extractEntries :: "filesys \<Rightarrow> string \<Rightarrow> tar_entry list \<Rightarrow> error option \<Rightarrow> filesys \<times> error option" where
  "extractEntries fs target [] streamEnd = (fs, streamEnd)"
| "extractEntries fs target (hdr # rest) streamEnd =
     (case extractEntry fs target hdr of
        (fs', Some err) \<Rightarrow> (fs', Some err)
      | (fs', None) \<Rightarrow> extractEntries fs' target rest streamEnd)"

definition extractArchive :: "snapshot \<Rightarrow> filesys \<Rightarrow> string \<Rightarrow> filesys \<times> error option" where
  "extractArchive snap fs target =
     (if \<not> ArchiveAvailable snap then (fs, Some ErrArchiveNotAvailable)
      else
        (case os_MkdirAll fs target 493 of
           (fs1, Some err) \<Rightarrow> (fs1, Some err)
         | (fs1, None) \<Rightarrow>
             (case gzipErr snap of
                Some err \<Rightarrow> (fs1, Some err)
              | None \<Rightarrow> extractEntries fs1 target (entries snap) (streamErr snap))))"

text \<open>The end of \<^verbatim>\<open>EnsureExtracted\<close>, which every path that extracts runs through: the
  archive is unpacked and, when that succeeded, the version marker is written.\<close>

definition extractAndMark :: "snapshot \<Rightarrow> filesys \<Rightarrow> string \<Rightarrow> filesys \<times> bool \<times> error option" where
  "extractAndMark snap fs target =
     (case extractArchive snap fs target of
        (fs1, Some err) \<Rightarrow> (fs1, False, Some err)
      | (fs1, None) \<Rightarrow>
          (case os_WriteFile fs1 (filepath_Join [target, markerFile]) (ArchiveHash snap) 420 of
             (fs2, Some err) \<Rightarrow> (fs2, True, Some err)
           | (fs2, None) \<Rightarrow> (fs2, True, None)))"

text \<open>
  \<^verbatim>\<open>EnsureExtracted\<close> in its two parts. \<open>checkTarget\<close> is the decision on the target
  (lines 36 to 61): it returns the result of the call (\<open>Inl\<close>) or the file system on which
  the extraction goes on (\<open>Inr\<close>).
\<close>

definition checkTarget ::
  "snapshot \<Rightarrow> filesys \<Rightarrow> string \<Rightarrow> bool \<Rightarrow> (filesys \<times> bool \<times> error option) + filesys" where
  "checkTarget snap fs target force =
     (if strings_TrimSpace target = [] then Inl (fs, False, Some ErrAtomRootPathEmpty)
      else
        (case os_Stat fs target of
           Inr info \<Rightarrow>
             if \<not> IsDir info then Inl (fs, False, Some ErrAtomRootNotDirectory)
             else if markerMatches snap fs target then Inl (fs, False, None)
             else if force then
               (case os_RemoveAll fs target of
                  (fs1, Some err) \<Rightarrow> Inl (fs1, False, Some err)
                | (fs1, None) \<Rightarrow> Inr fs1)
             else if dirEmpty fs target then Inr fs
             else Inl (fs, False, Some ErrAtomRootExists)
         | Inl err \<Rightarrow>
             if \<not> isNotExist err then Inl (fs, False, Some err)
             else Inr fs))"

definition EnsureExtracted :: "snapshot \<Rightarrow> filesys \<Rightarrow> string \<Rightarrow> bool \<Rightarrow> filesys \<times> bool \<times> error option" where
  "EnsureExtracted snap fs target force =
     (case checkTarget snap fs target force of
        Inl result \<Rightarrow> result
      | Inr fs1 \<Rightarrow> extractAndMark snap fs1 target)"

section \<open>The boot sequence (cmd/valence)\<close>

text \<open>The environment is what \<^verbatim>\<open>os.Getenv\<close> answers: the empty string for a variable that
  is not set. The log is the list of lines written by \<^verbatim>\<open>log.Printf\<close>.\<close>

type_synonym environ = "string \<Rightarrow> string"

definition envBool :: "environ \<Rightarrow> string \<Rightarrow> bool \<Rightarrow> bool" where
  "envBool env key def =
     (let val = strings_TrimSpace (env key)
      in if val = [] then def
         else (case strconv_ParseBool val of None \<Rightarrow> def | Some parsed \<Rightarrow> parsed))"

definition ensureAtomRoot ::
  "snapshot \<Rightarrow> environ \<Rightarrow> filesys \<Rightarrow> string \<Rightarrow> filesys \<times> string list \<times> error option" where
  "ensureAtomRoot snap env fs path =
     (let forceExtract = envBool env ''VALENCE_ATOM_FORCE_EXTRACT'' False
      in case EnsureExtracted snap fs path forceExtract of
           (fs', extracted, Some err) \<Rightarrow>
             if err = ErrAtomRootExists then
               (fs', [''atom root exists at '' @ path @ ''; skipping embedded extraction''], None)
             else (fs', [], Some err)
         | (fs', extracted, None) \<Rightarrow>
             if extracted then (fs', [''extracted embedded atom archive to '' @ path], None)
             else (fs', [], None))"

definition resolveAtomRoot ::
  "snapshot \<Rightarrow> environ \<Rightarrow> string \<Rightarrow> filesys \<Rightarrow> filesys \<times> string list \<times> (error + string)" where
  "resolveAtomRoot snap env wd fs =
     (let root = strings_TrimSpace (env ''VALENCE_ATOM_SRC_DIR'')
      in if root = [] then (fs, [], Inl ErrSrcDirRequired)
         else
           (let abs = filepath_Abs wd root
            in case ensureAtomRoot snap env fs abs of
                 (fs', logs, Some err) \<Rightarrow> (fs', logs, Inl err)
               | (fs', logs, None) \<Rightarrow>
                   (case os_Stat fs' abs of
                      Inr info \<Rightarrow>
                        if IsDir info then (fs', logs, Inr abs)
                        else (fs', logs, Inl ErrAtomRootNotFound)
                    | Inl err \<Rightarrow> (fs', logs, Inl ErrAtomRootNotFound))))"

datatype config = Config string string string string

definition defaultAddr :: string where
  "defaultAddr = '':8080''"

definition envOrDefault :: "environ \<Rightarrow> string \<Rightarrow> string \<Rightarrow> string" where
  "envOrDefault env key def =
     (let val = strings_TrimSpace (env key) in if val \<noteq> [] then val else def)"

text \<open>\<^verbatim>\<open>loadConfig\<close>; the four fields of the configuration are the listen address, the
  application root, the front controller and the data directory.\<close>

definition loadConfig ::
  "snapshot \<Rightarrow> environ \<Rightarrow> string \<Rightarrow> filesys \<Rightarrow> filesys \<times> string list \<times> (error + config)" where
  "loadConfig snap env wd fs =
     (let addr = envOrDefault env ''VALENCE_ADDR'' defaultAddr
      in case resolveAtomRoot snap env wd fs of
           (fs', logs, Inl err) \<Rightarrow> (fs', logs, Inl err)
         | (fs', logs, Inr absRoot) \<Rightarrow>
             (let dataDir = strings_TrimSpace (env ''ATOM_DATA_DIR'');
                  dataDir' = (if dataDir \<noteq> [] then filepath_Abs wd dataDir else dataDir);
                  controller = filepath_Join [absRoot, ''index.php'']
              in case os_Stat fs' controller of
                   Inl err \<Rightarrow> (fs', logs, Inl ErrFrontControllerNotFound)
                 | Inr info \<Rightarrow>
                     if IsDir info then (fs', logs, Inl ErrFrontControllerNotFound)
                     else (fs', logs, Inr (Config addr absRoot controller dataDir'))))"

subsection \<open>Well-formed file systems and sample data\<close>

text \<open>In a well-formed table every entry lies in a directory of the table.\<close>

definition isDirNode :: "node option \<Rightarrow> bool" where
  "isDirNode n = (case n of Some (Dir m) \<Rightarrow> True | _ \<Rightarrow> False)"

definition wellFormed :: "filesys \<Rightarrow> bool" where
  "wellFormed fs = list_all (\<lambda>k. isDirNode (lookup fs (parentDir k))) (map fst fs)"

definition entryA1 :: tar_entry where
  "entryA1 = \<lparr>Name = ''lib/'', Typeflag = TypeDir, Mode = 493, Linkname = [], Data = [],
              CopyErr = None\<rparr>"

definition entryA2 :: tar_entry where
  "entryA2 = \<lparr>Name = ''lib/app.php'', Typeflag = TypeReg, Mode = 420, Linkname = [],
              Data = ''<?php app'', CopyErr = None\<rparr>"

definition entryA3 :: tar_entry where
  "entryA3 = \<lparr>Name = ''index.php'', Typeflag = TypeReg, Mode = 420, Linkname = [],
              Data = ''<?php index'', CopyErr = None\<rparr>"


definition snapA :: snapshot where
  "snapA = \<lparr>archiveData = ''tarball A'', sum256 = replicate 32 (CHR 0xA1), gzipErr = None,
            entries = [entryA1, entryA2, entryA3], streamErr = None\<rparr>"

definition snapB :: snapshot where
  "snapB = \<lparr>archiveData = ''tarball B'', sum256 = replicate 32 (CHR 0xB2), gzipErr = None,
            entries = [entryA3], streamErr = None\<rparr>"


definition snapTruncated :: snapshot where
  "snapTruncated = \<lparr>archiveData = ''tarball T'', sum256 = replicate 32 (CHR 0x7C), gzipErr = None,
                    entries = [entryA3], streamErr = Some ErrTarStream\<rparr>"

definition fsEmpty :: filesys where
  "fsEmpty = [(''/srv'', Dir 493)]"

definition fsForeign :: filesys where
  "fsForeign = [(''/srv'', Dir 493), (''/srv/atom'', Dir 493),
                (''/srv/atom/index.php'', File 420 ''<?php other'')]"

definition envAtom :: environ where
  "envAtom key = (if key = ''VALENCE_ATOM_SRC_DIR'' then '' /srv/atom '' else [])"

subsection \<open>Changes of the file system\<close>

text \<open>
  \<open>replaceable old n\<close>: what an operation may put in the place of a node. A missing node
  may become any node, a regular file may be overwritten by a regular file; a directory and a
  symbolic link are never replaced.
\<close>

definition replaceable :: "node option \<Rightarrow> node \<Rightarrow> bool" where
  "replaceable old n =
     (case old of
        None \<Rightarrow> True
      | Some (File m d) \<Rightarrow> (case n of File m' d' \<Rightarrow> True | _ \<Rightarrow> False)
      | Some (Dir m) \<Rightarrow> False
      | Some (Symlink t) \<Rightarrow> False)"

text \<open>
  \<open>changes A fs fs'\<close>: from \<open>fs\<close> to \<open>fs'\<close> every path keeps its node, or gets a node that
  \<open>A\<close> allows and that may replace the old one. It is the invariant of the operations
  that create and write: none of them removes a node.
\<close>

definition changes :: "(string \<Rightarrow> node \<Rightarrow> bool) \<Rightarrow> filesys \<Rightarrow> filesys \<Rightarrow> bool" where
  "changes A fs fs' =
     (\<forall>q. lookup fs' q = lookup fs q
          \<or> (\<exists>n. lookup fs' q = Some n \<and> A q n \<and> replaceable (lookup fs q) n))"

text \<open>What an entry may put at a path.\<close>

definition entryNode :: "tar_entry \<Rightarrow> node \<Rightarrow> bool" where
  "entryNode hdr n =
     (case n of
        Dir m \<Rightarrow> True
      | Symlink t \<Rightarrow> True
      | File m d \<Rightarrow> d = Data hdr)"

definition entriesNode :: "tar_entry list \<Rightarrow> node \<Rightarrow> bool" where
  "entriesNode es n = list_ex (\<lambda>hdr. entryNode hdr n) es"





text \<open>The sample target after the extraction of the sample snapshots.\<close>

definition fsExtractedA :: filesys where
  "fsExtractedA =
     [(''/srv'', Dir 493), (''/srv/atom'', Dir 493), (''/srv/atom/lib'', Dir 493),
      (''/srv/atom/lib/app.php'', File 420 ''<?php app''),
      (''/srv/atom/index.php'', File 420 ''<?php index'')]"

definition fsMarkedA :: filesys where
  "fsMarkedA = fsExtractedA @ [(''/srv/atom/.valence-atom-version'', File 420 (ArchiveHash snapA))]"

definition fsExtractedB :: filesys where
  "fsExtractedB =
     [(''/srv'', Dir 493), (''/srv/atom'', Dir 493),
      (''/srv/atom/index.php'', File 420 ''<?php index'')]"

definition fsMarkedB :: filesys where
  "fsMarkedB = fsExtractedB @ [(''/srv/atom/.valence-atom-version'', File 420 (ArchiveHash snapB))]"

section \<open>Properties of the library models\<close>

subsection \<open>Regular expression matching\<close>

lemma nil_in_conc: "[] \<in> conc A B \<longleftrightarrow> [] \<in> A \<and> [] \<in> B"
  by (auto simp: conc_def)

lemma nullable_lang: "nullable r \<longleftrightarrow> [] \<in> lang r"
  by (induction r) (auto simp: nil_in_conc intro: star.star_nil)

lemma Cons_in_conc:
  "c # w \<in> conc A B \<longleftrightarrow>
     (\<exists>u v. w = u @ v \<and> c # u \<in> A \<and> v \<in> B) \<or> ([] \<in> A \<and> c # w \<in> B)"
  by (auto simp: conc_def Cons_eq_append_conv)

lemma star_Cons_split:
  assumes "x \<in> star A" and "x = c # w"
  shows "\<exists>u v. w = u @ v \<and> c # u \<in> A \<and> v \<in> star A"
  using assms
proof (induction arbitrary: w rule: star.induct)
  case star_nil
  then show ?case by simp
next
  case (star_app u v)
  show ?case
  proof (cases u)
    case Nil
    with star_app show ?thesis by simp
  next
    case (Cons d u')
    with star_app.prems have "d = c" and "w = u' @ v" by simp_all
    with Cons star_app.hyps show ?thesis by blast
  qed
qed

lemma Cons_in_star:
  "c # w \<in> star A \<longleftrightarrow> (\<exists>u v. w = u @ v \<and> c # u \<in> A \<and> v \<in> star A)"
proof
  assume "c # w \<in> star A"
  then show "\<exists>u v. w = u @ v \<and> c # u \<in> A \<and> v \<in> star A"
    by (rule star_Cons_split) simp
next
  assume "\<exists>u v. w = u @ v \<and> c # u \<in> A \<and> v \<in> star A"
  then obtain u v where "w = u @ v" "c # u \<in> A" "v \<in> star A" by blast
  then have "(c # u) @ v \<in> star A" by (intro star.star_app)
  with \<open>w = u @ v\<close> show "c # w \<in> star A" by simp
qed

lemma deriv_conc:
  "{w. c # w \<in> conc A B} =
     conc {w. c # w \<in> A} B \<union> (if [] \<in> A then {w. c # w \<in> B} else {})"
proof -
  have "conc {w. c # w \<in> A} B = {w. \<exists>u v. w = u @ v \<and> c # u \<in> A \<and> v \<in> B}"
    by (auto simp: conc_def)
  then show ?thesis
    by (auto simp: Cons_in_conc)
qed

lemma deriv_star: "{w. c # w \<in> star A} = conc {w. c # w \<in> A} (star A)"
proof -
  have "conc {w. c # w \<in> A} (star A) = {w. \<exists>u v. w = u @ v \<and> c # u \<in> A \<and> v \<in> star A}"
    by (auto simp: conc_def)
  then show ?thesis
    by (auto simp: Cons_in_star)
qed

lemma lang_deriv: "lang (deriv c r) = {w. c # w \<in> lang r}"
proof (induction r)
  case (Cat r s)
  then show ?case
    by (simp add: deriv_conc nullable_lang)
next
  case (Star r)
  then show ?case
    by (simp add: deriv_star)
qed auto

lemma MatchString_lang: "MatchString r w \<longleftrightarrow> w \<in> lang r"
  by (induction w arbitrary: r) (simp_all add: nullable_lang lang_deriv)

lemma lang_str: "lang (str s) = {s}"
  by (induction s) (auto simp: conc_def)

lemma lang_alts: "lang (alts ws) = set ws"
  by (induction ws) (auto simp: lang_str)

lemma lang_dir_prefix:
  assumes "w \<in> lang (Cat (Lit c) (Cat (alts ds) (Cat (Lit c') r)))"
  shows "\<exists>d \<in> set ds. prefix (c # d @ [c']) w"
proof -
  from assms obtain v where w: "w = c # v" and v: "v \<in> conc (set ds) (conc {[c']} (lang r))"
    by (auto simp: conc_def lang_alts)
  from v obtain d x where "d \<in> set ds" and "v = d @ c' # x"
    by (auto simp: conc_def)
  with w show ?thesis by (auto simp: prefix_def)
qed

lemma lang_str_prefix: "w \<in> lang (Cat (str s) r) \<Longrightarrow> prefix s w"
  by (auto simp: conc_def lang_str)

lemma staticAssetRe_prefix:
  assumes "MatchString staticAssetRe p"
  shows "\<exists>d \<in> set [''css'', ''dist'', ''js'', ''images'', ''plugins'', ''vendor''].
           prefix (CHR ''/'' # d @ ''/'') p"
  using assms unfolding MatchString_lang staticAssetRe_def by (rule lang_dir_prefix)

lemma downloadAssetRe_prefix:
  assumes "MatchString downloadAssetRe p"
  shows "prefix ''/downloads/'' p"
proof -
  from assms have "\<exists>d \<in> set [''downloads'']. prefix (CHR ''/'' # d @ ''/'') p"
    unfolding MatchString_lang downloadAssetRe_def by (rule lang_dir_prefix)
  then show ?thesis by simp
qed

lemma publicFileRe_prefix:
  assumes "MatchString publicFileRe p"
  shows "p = ''/ead.dtd'' \<or> p = ''/favicon.ico'' \<or> p = ''/robots.txt'' \<or> prefix ''/sitemap'' p"
proof -
  from assms obtain v where p: "p = CHR ''/'' # v"
    and v: "v = ''ead.dtd'' \<or> v = ''favicon.ico'' \<or> v = ''robots.txt''
            \<or> v \<in> lang (Cat (str ''sitemap'') DotStar)"
    unfolding MatchString_lang publicFileRe_def
    by (auto simp: conc_def lang_str simp del: str.simps)
  from v have "v = ''ead.dtd'' \<or> v = ''favicon.ico'' \<or> v = ''robots.txt'' \<or> prefix ''sitemap'' v"
    using lang_str_prefix by blast
  with p show ?thesis by auto
qed

lemma privatePathRe_prefix: "MatchString privatePathRe p \<Longrightarrow> prefix ''/private/'' p"
  unfolding MatchString_lang privatePathRe_def by (rule lang_str_prefix)

lemma uploadsConfRe_prefix: "MatchString uploadsConfRe p \<Longrightarrow> prefix ''/uploads/r/'' p"
  unfolding MatchString_lang uploadsConfRe_def by (rule lang_str_prefix)

lemma lang_dir_str_prefix:
  assumes "w \<in> lang (Cat (Lit c) (Cat (alts ds) (Cat (str s) r)))"
  shows "\<exists>d \<in> set ds. prefix (c # d @ s) w"
proof -
  from assms obtain v where w: "w = c # v" and v: "v \<in> conc (set ds) (conc {s} (lang r))"
    by (auto simp: conc_def lang_alts lang_str)
  from v obtain d x where "d \<in> set ds" and "v = d @ s @ x"
    by (auto simp: conc_def)
  with w show ?thesis by (auto simp: prefix_def)
qed

lemma phpEntryRe_prefix:
  assumes "MatchString phpEntryRe p"
  shows "prefix ''/index.php'' p \<or> prefix ''/qubit_dev.php'' p"
proof -
  from assms have "\<exists>d \<in> set [''index'', ''qubit_dev'']. prefix (CHR ''/'' # d @ ''.php'') p"
    unfolding MatchString_lang phpEntryRe_def by (rule lang_dir_str_prefix)
  then show ?thesis by auto
qed

lemma matchesStatic_prefix:
  assumes "matchesStatic p"
  shows "prefix ''/css/'' p \<or> prefix ''/dist/'' p \<or> prefix ''/js/'' p \<or> prefix ''/images/'' p
       \<or> prefix ''/plugins/'' p \<or> prefix ''/vendor/'' p \<or> prefix ''/downloads/'' p
       \<or> p = ''/ead.dtd'' \<or> p = ''/favicon.ico'' \<or> p = ''/robots.txt'' \<or> prefix ''/sitemap'' p"
proof -
  from assms consider "MatchString staticAssetRe p" | "MatchString downloadAssetRe p"
    | "MatchString publicFileRe p"
    by (auto simp: matchesStatic_def split: if_splits)
  then show ?thesis
  proof cases
    case 1
    from staticAssetRe_prefix[OF 1] show ?thesis by auto
  next
    case 2
    from downloadAssetRe_prefix[OF 2] show ?thesis by simp
  next
    case 3
    from publicFileRe_prefix[OF 3] show ?thesis by auto
  qed
qed

lemma matchesStatic_not_earlier:
  assumes "matchesStatic p"
  shows "\<not> MatchString privatePathRe p" and "\<not> MatchString uploadsConfRe p"
    and "\<not> MatchString phpEntryRe p"
proof -
  note st = matchesStatic_prefix[OF assms]
  show "\<not> MatchString privatePathRe p"
    using st privatePathRe_prefix[of p] by (auto simp: prefix_def)
  show "\<not> MatchString uploadsConfRe p"
    using st uploadsConfRe_prefix[of p] by (auto simp: prefix_def)
  show "\<not> MatchString phpEntryRe p"
    using st phpEntryRe_prefix[of p] by (auto simp: prefix_def)
qed

section \<open>Properties of the router\<close>

lemma firstRegular_find:
  "firstRegular stat cs =
     (case find (isRegularFile stat) cs of Some c \<Rightarrow> (c, True) | None \<Rightarrow> ([], False))"
  by (induction cs) (auto simp: isRegularFile_def split: sum.splits)

lemma firstRegular_none:
  "(\<forall>c \<in> set cs. \<not> isRegularFile stat c) \<Longrightarrow> firstRegular stat cs = ([], False)"
  by (induction cs) (auto simp: isRegularFile_def split: sum.splits)

text \<open>
  Claim C3. A path that matches a static-asset family pattern (static, downloads or a fixed
  public file name) and for which no candidate root holds a regular file is routed to
  \<open>static_missing\<close> with the not-found handler: the three earlier rules cannot match such
  a path, and the later rules (uploads, direct file, front controller) are not reached.
\<close>

theorem static_pattern_miss_is_404:
  assumes "matchesStatic reqPath"
    and "\<forall>c \<in> set (candidates h reqPath). \<not> isRegularFile stat c"
  shows "decideRoute h stat r reqPath = \<lparr>label = ''static_missing'', handler = NotFoundHandler\<rparr>"
proof -
  from assms(2) have "staticAssetPath h stat reqPath = ([], False)"
    unfolding staticAssetPath_def by (rule firstRegular_none)
  with assms(1) matchesStatic_not_earlier[OF assms(1)] show ?thesis
    by (simp add: decideRoute_def)
qed

theorem static_pattern_miss_is_404_witness:
  "matchesStatic ''/css/main.css''
   \<and> candidates h0 ''/css/main.css'' = [''/srv/atom/css/main.css'']
   \<and> \<not> isRegularFile stat0 ''/srv/atom/css/main.css''
   \<and> decideRoute h0 stat0
         \<lparr>Method = ''GET'', URL_Path = ''/css/main.css'', Header = [], Body = []\<rparr> ''/css/main.css''
       = \<lparr>label = ''static_missing'', handler = NotFoundHandler\<rparr>"
proof -
  have m: "matchesStatic ''/css/main.css''"
    by code_simp
  have c: "candidates h0 ''/css/main.css'' = [''/srv/atom/css/main.css'']"
    by code_simp
  have r: "\<not> isRegularFile stat0 ''/srv/atom/css/main.css''"
    by (simp add: isRegularFile_def stat0_def)
  from c r have n: "\<forall>c \<in> set (candidates h0 ''/css/main.css''). \<not> isRegularFile stat0 c"
    by simp
  from m c r static_pattern_miss_is_404[OF m n] show ?thesis by blast
qed

text \<open>
  Claim C9. The static asset resolver returns the first candidate, in the order of the
  candidate list, that exists and is not a directory. The overlay root (\<open>atomDataDir\<close>)
  is a candidate only for the downloadable-document family, and then comes before the primary
  root: a regular file in the overlay root is served whatever the primary root holds. When
  every candidate is missing or a directory the resolver reports not-found.
\<close>

theorem staticAssetPath_priority:
  "staticAssetPath h stat p =
     (case find (isRegularFile stat) (candidates h p) of
        Some c \<Rightarrow> (c, True) | None \<Rightarrow> ([], False))
   \<and> candidates h p =
       (if atomDataDir h \<noteq> [] \<and> MatchString downloadAssetRe p
        then [filepath_Join [atomDataDir h, strings_TrimPrefix p ''/''],
              filepath_Join [phpRoot h, strings_TrimPrefix p ''/'']]
        else [filepath_Join [phpRoot h, strings_TrimPrefix p ''/'']])
   \<and> (atomDataDir h \<noteq> [] \<and> MatchString downloadAssetRe p
        \<and> isRegularFile stat (filepath_Join [atomDataDir h, strings_TrimPrefix p ''/''])
      \<longrightarrow> staticAssetPath h stat p
            = (filepath_Join [atomDataDir h, strings_TrimPrefix p ''/''], True))
   \<and> ((\<forall>c \<in> set (candidates h p). \<not> isRegularFile stat c)
      \<longrightarrow> staticAssetPath h stat p = ([], False))"
  by (simp add: staticAssetPath_def firstRegular_find firstRegular_none candidates_def Let_def)

theorem staticAssetPath_priority_witness:
  "atomDataDir h0 \<noteq> [] \<and> MatchString downloadAssetRe ''/downloads/a.pdf''
   \<and> isRegularFile stat0 ''/data/downloads/a.pdf''
   \<and> isRegularFile stat0 ''/srv/atom/downloads/a.pdf''
   \<and> staticAssetPath h0 stat0 ''/downloads/a.pdf'' = (''/data/downloads/a.pdf'', True)
   \<and> candidates h0 ''/images/x.png'' = [''/srv/atom/images/x.png'']
   \<and> \<not> isRegularFile stat0 ''/srv/atom/images/x.png''
   \<and> staticAssetPath h0 stat0 ''/images/x.png'' = ([], False)"
proof -
  have d: "atomDataDir h0 \<noteq> []" by (simp add: h0_def)
  have m: "MatchString downloadAssetRe ''/downloads/a.pdf''" by code_simp
  have j: "filepath_Join [atomDataDir h0, strings_TrimPrefix ''/downloads/a.pdf'' ''/'']
           = ''/data/downloads/a.pdf''" by code_simp
  have r1: "isRegularFile stat0 ''/data/downloads/a.pdf''" by (simp add: isRegularFile_def stat0_def)
  have r2: "isRegularFile stat0 ''/srv/atom/downloads/a.pdf''" by (simp add: isRegularFile_def stat0_def)
  have c: "candidates h0 ''/images/x.png'' = [''/srv/atom/images/x.png'']" by code_simp
  have n: "\<forall>c \<in> set (candidates h0 ''/images/x.png''). \<not> isRegularFile stat0 c"
    by (simp add: c isRegularFile_def stat0_def)
  from staticAssetPath_priority[of h0 stat0 "''/downloads/a.pdf''"] d m r1 j
  have s1: "staticAssetPath h0 stat0 ''/downloads/a.pdf'' = (''/data/downloads/a.pdf'', True)"
    by simp
  from staticAssetPath_priority[of h0 stat0 "''/images/x.png''"] n
  have s2: "staticAssetPath h0 stat0 ''/images/x.png'' = ([], False)"
    by blast
  have r3: "\<not> isRegularFile stat0 ''/srv/atom/images/x.png''"
    by (simp add: isRegularFile_def stat0_def)
  from d m r1 r2 s1 c r3 s2 show ?thesis by blast
qed

text \<open>
  Claim C10. The routing decision is a function of the handler, the file system answers and
  the normalised path only: the request (method, headers, body) has no influence, and two
  requests whose paths normalise to the same path get the same decision.
\<close>

theorem decideRoute_ignores_request:
  "decideRoute h stat r1 reqPath = decideRoute h stat r2 reqPath
   \<and> (normalizePath (URL_Path r1) = normalizePath (URL_Path r2)
      \<longrightarrow> snd (ServeHTTP h stat r1) = snd (ServeHTTP h stat r2))"
  by (simp add: decideRoute_def ServeHTTP_def Let_def)

theorem decideRoute_ignores_request_witness:
  "normalizePath (URL_Path \<lparr>Method = ''GET'', URL_Path = ''/index.php/informationobject/browse'',
                             Header = [], Body = []\<rparr>)
     = normalizePath (URL_Path \<lparr>Method = ''POST'', URL_Path = ''//informationobject/./browse/'',
                                Header = [(''Cookie'', [''a=b''])], Body = ''x=1''\<rparr>)
   \<and> snd (ServeHTTP h0 stat0 \<lparr>Method = ''GET'', URL_Path = ''/index.php/informationobject/browse'',
                                Header = [], Body = []\<rparr>)
     = snd (ServeHTTP h0 stat0 \<lparr>Method = ''POST'', URL_Path = ''//informationobject/./browse/'',
                                Header = [(''Cookie'', [''a=b''])], Body = ''x=1''\<rparr>)"
proof -
  have e: "normalizePath (URL_Path \<lparr>Method = ''GET'', URL_Path = ''/index.php/informationobject/browse'',
                             Header = [], Body = []\<rparr>)
     = normalizePath (URL_Path \<lparr>Method = ''POST'', URL_Path = ''//informationobject/./browse/'',
                                Header = [(''Cookie'', [''a=b''])], Body = ''x=1''\<rparr>)"
    by code_simp
  with decideRoute_ignores_request[of h0 stat0
      "\<lparr>Method = ''GET'', URL_Path = ''/index.php/informationobject/browse'', Header = [], Body = []\<rparr>"
      "[]"
      "\<lparr>Method = ''POST'', URL_Path = ''//informationobject/./browse/'',
         Header = [(''Cookie'', [''a=b''])], Body = ''x=1''\<rparr>"]
  show ?thesis by blast
qed

section \<open>Properties of path cleaning\<close>

lemma backtrack_stop:
  assumes "k \<le> w"
    and "\<forall>i. k < i \<and> i \<le> w \<longrightarrow> buf ! i \<noteq> CHR ''/''"
    and "k = dotdot \<or> (dotdot \<le> k \<and> buf ! k = CHR ''/'')"
  shows "backtrack dotdot w buf = k"
  using assms
proof (induction dotdot w buf rule: backtrack.induct)
  case (1 dotdot w buf)
  show ?case
  proof (cases "k = w")
    case True
    with "1.prems"(3) show ?thesis
      by (subst backtrack.simps) auto
  next
    case False
    with "1.prems" have lt: "k < w" by simp
    with "1.prems" have c: "w > dotdot \<and> buf ! w \<noteq> CHR ''/''" by auto
    from lt "1.prems" have "backtrack dotdot (w - 1) buf = k"
      by (intro "1.IH") (use c in auto)
    with c show ?thesis
      by (subst backtrack.simps) simp
  qed
qed

lemma slashed_snoc: "slashed (segs @ [s]) = slashed segs @ CHR ''/'' # s"
  by (simp add: slashed_def)

lemma slashed_Cons: "slashed (s # segs) = CHR ''/'' # s @ slashed segs"
  by (simp add: slashed_def)

lemma slashed_Nil: "slashed [] = []"
  by (simp add: slashed_def)

lemma slashed_eq_Nil: "slashed segs = [] \<longleftrightarrow> segs = []"
  by (cases segs) (simp_all add: slashed_def)

lemma backtrack_segment:
  assumes "CHR ''/'' \<notin> set s" and "dotdot \<le> length pre"
  shows "backtrack dotdot (length (pre @ CHR ''/'' # s) - 1) (pre @ CHR ''/'' # s) = length pre"
proof (rule backtrack_stop)
  show "length pre \<le> length (pre @ CHR ''/'' # s) - 1" by simp
  show "\<forall>i. length pre < i \<and> i \<le> length (pre @ CHR ''/'' # s) - 1
          \<longrightarrow> (pre @ CHR ''/'' # s) ! i \<noteq> CHR ''/''"
  proof (intro allI impI)
    fix i assume i: "length pre < i \<and> i \<le> length (pre @ CHR ''/'' # s) - 1"
    then have "(pre @ CHR ''/'' # s) ! i = s ! (i - length pre - 1)"
      by (simp add: nth_append nth_Cons')
    moreover from i have "i - length pre - 1 < length s" by auto
    ultimately show "(pre @ CHR ''/'' # s) ! i \<noteq> CHR ''/''"
      using assms(1) by (metis nth_mem)
  qed
  show "length pre = dotdot \<or> (dotdot \<le> length pre \<and> (pre @ CHR ''/'' # s) ! length pre = CHR ''/'')"
    using assms(2) by simp
qed


lemma backtrack_rooted_first:
  assumes "CHR ''/'' \<notin> set s"
  shows "backtrack 1 (length (CHR ''/'' # s) - 1) (CHR ''/'' # s) = 1 \<or> s = []"
proof (cases "s = []")
  case True
  then show ?thesis by simp
next
  case False
  have "backtrack 1 (length (CHR ''/'' # s) - 1) (CHR ''/'' # s) = 1"
  proof (rule backtrack_stop)
    show "1 \<le> length (CHR ''/'' # s) - 1" using False by (cases s) simp_all
    show "\<forall>i. 1 < i \<and> i \<le> length (CHR ''/'' # s) - 1 \<longrightarrow> (CHR ''/'' # s) ! i \<noteq> CHR ''/''"
    proof (intro allI impI)
      fix i assume i: "1 < i \<and> i \<le> length (CHR ''/'' # s) - 1"
      then have "(CHR ''/'' # s) ! i = s ! (i - 1)" by (simp add: nth_Cons')
      moreover from i have "i - 1 < length s" by auto
      ultimately show "(CHR ''/'' # s) ! i \<noteq> CHR ''/''" using assms by (metis nth_mem)
    qed
    show "1 = (1::nat) \<or> ((1::nat) \<le> 1 \<and> (CHR ''/'' # s) ! 1 = CHR ''/'')" by simp
  qed
  then show ?thesis ..
qed


lemma step_slash: "clean_loop r d out (CHR ''/'' # cs) = clean_loop r d out cs"
  by (subst clean_loop.simps(2)) simp

lemma step_dot:
  "atBoundary cs \<Longrightarrow> clean_loop r d out (CHR ''.'' # cs) = clean_loop r d out cs"
  by (subst clean_loop.simps(2)) (simp add: atBoundary_def)

lemma step_dotdot:
  assumes "atBoundary cs"
  shows "clean_loop r d out (CHR ''.'' # CHR ''.'' # cs) =
     (if length out > d then
        clean_loop r d (take (backtrack d (length out - 1) out) out) cs
      else if \<not> r then
        clean_loop r (length ((if length out > 0 then out @ ''/'' else out) @ ''..''))
          ((if length out > 0 then out @ ''/'' else out) @ ''..'') cs
      else clean_loop r d out cs)"
  using assms by (subst clean_loop.simps(2)) (simp add: atBoundary_def)

lemma takeWhile_segment:
  assumes "CHR ''/'' \<notin> set s" and "atBoundary rest"
  shows "takeWhile (\<lambda>x. x \<noteq> CHR ''/'') (s @ rest) = s"
    and "dropWhile (\<lambda>x. x \<noteq> CHR ''/'') (s @ rest) = rest"
proof -
  from assms(2) have r: "takeWhile (\<lambda>x. x \<noteq> CHR ''/'') rest = []"
    "dropWhile (\<lambda>x. x \<noteq> CHR ''/'') rest = rest"
    by (cases rest; simp add: atBoundary_def)+
  from assms(1) have a: "\<forall>x \<in> set s. x \<noteq> CHR ''/''" by auto
  from a r show "takeWhile (\<lambda>x. x \<noteq> CHR ''/'') (s @ rest) = s"
    by (simp add: takeWhile_append2)
  from a r show "dropWhile (\<lambda>x. x \<noteq> CHR ''/'') (s @ rest) = rest"
    by (simp add: dropWhile_append2)
qed

lemma step_segment:
  assumes "validSegment s" and "atBoundary rest"
  shows "clean_loop r d out (s @ rest) =
     clean_loop r d
       ((if r \<and> length out \<noteq> 1 \<or> \<not> r \<and> length out \<noteq> 0 then out @ ''/'' else out) @ s) rest"
proof -
  from assms(1) obtain c s' where s: "s = c # s'" and c: "c \<noteq> CHR ''/''"
    by (cases s) (auto simp: validSegment_def)
  from assms(1) have nosl: "CHR ''/'' \<notin> set s" by (simp add: validSegment_def)
  have n2: "\<not> (c = CHR ''.'' \<and> (s' @ rest = [] \<or> hd (s' @ rest) = CHR ''/''))"
  proof
    assume h: "c = CHR ''.'' \<and> (s' @ rest = [] \<or> hd (s' @ rest) = CHR ''/'')"
    have "s' = []"
    proof (cases s')
      case (Cons a t)
      with h have "a = CHR ''/''" by simp
      with Cons s nosl show ?thesis by simp
    qed simp
    with h s assms(1) show False by (simp add: validSegment_def)
  qed
  have n3: "\<not> (c = CHR ''.'' \<and> hd (s' @ rest) = CHR ''.''
              \<and> (tl (s' @ rest) = [] \<or> hd (tl (s' @ rest)) = CHR ''/''))"
  proof
    assume h: "c = CHR ''.'' \<and> hd (s' @ rest) = CHR ''.''
              \<and> (tl (s' @ rest) = [] \<or> hd (tl (s' @ rest)) = CHR ''/'')"
    show False
    proof (cases s')
      case Nil
      with h s assms(1) show False by (simp add: validSegment_def)
    next
      case (Cons a t)
      with h have a: "a = CHR ''.''" by simp
      have "t = []"
      proof (cases t)
        case (Cons b u)
        with \<open>s' = a # t\<close> h have "b = CHR ''/''" by simp
        with Cons \<open>s' = a # t\<close> s nosl show ?thesis by simp
      qed simp
      with a Cons h s assms(1) show False by (simp add: validSegment_def)
    qed
  qed
  from takeWhile_segment[OF nosl assms(2)] s
  have tw: "takeWhile (\<lambda>x. x \<noteq> CHR ''/'') (c # s' @ rest) = s"
    and dw: "dropWhile (\<lambda>x. x \<noteq> CHR ''/'') (c # s' @ rest) = rest"
    by simp_all
  have "clean_loop r d out (c # (s' @ rest)) =
     clean_loop r d
       ((if r \<and> length out \<noteq> 1 \<or> \<not> r \<and> length out \<noteq> 0 then out @ ''/'' else out) @ s) rest"
    by (subst clean_loop.simps(2)) (simp only: c n2 n3 if_False tw dw)
  with s show ?thesis by simp
qed

lemma input_cases:
  assumes "inp \<noteq> []"
  obtains (slash) cs where "inp = CHR ''/'' # cs"
  | (dot) cs where "inp = CHR ''.'' # cs" and "atBoundary cs"
  | (dotdot) cs where "inp = CHR ''.'' # CHR ''.'' # cs" and "atBoundary cs"
  | (segment) s rest where "inp = s @ rest" and "validSegment s" and "atBoundary rest"
proof -
  define s where "s = takeWhile (\<lambda>x. x \<noteq> CHR ''/'') inp"
  define rest where "rest = dropWhile (\<lambda>x. x \<noteq> CHR ''/'') inp"
  have inp: "inp = s @ rest" by (simp add: s_def rest_def)
  have b: "atBoundary rest"
    unfolding atBoundary_def rest_def using hd_dropWhile[of "\<lambda>x. x \<noteq> CHR ''/''" inp] by auto
  have nosl: "CHR ''/'' \<notin> set s"
    unfolding s_def using set_takeWhileD by fastforce
  show thesis
  proof (cases "s = []")
    case True
    with inp assms b have "inp = CHR ''/'' # tl inp"
      by (cases inp) (auto simp: atBoundary_def)
    then show thesis by (rule slash)
  next
    case False
    show thesis
    proof (cases "s = ''.''")
      case True
      with inp b show thesis by (intro dot[of rest]) simp_all
    next
      case nd: False
      show thesis
      proof (cases "s = ''..''")
        case True
        with inp b show thesis by (intro dotdot[of rest]) simp_all
      next
        case ndd: False
        from False nd ndd nosl have "validSegment s" by (simp add: validSegment_def)
        with inp b show thesis by (intro segment[of s rest])
      qed
    qed
  qed
qed


lemma validSegment_length: "validSegment s \<Longrightarrow> length s > 0"
  by (simp add: validSegment_def)

lemma rootedPath_length:
  assumes "list_all validSegment segs"
  shows "length (rootedPath segs) \<noteq> 1 \<longleftrightarrow> segs \<noteq> []"
    and "length (rootedPath segs) > 1 \<longleftrightarrow> segs \<noteq> []"
proof -
  show "length (rootedPath segs) \<noteq> 1 \<longleftrightarrow> segs \<noteq> []"
    using assms by (cases segs) (auto simp: rootedPath_def slashed_Cons validSegment_def)
  show "length (rootedPath segs) > 1 \<longleftrightarrow> segs \<noteq> []"
    using assms by (cases segs) (auto simp: rootedPath_def slashed_Cons validSegment_def)
qed

lemma rootedPath_snoc:
  assumes "list_all validSegment segs"
  shows "rootedPath (segs @ [s]) =
           (if length (rootedPath segs) \<noteq> 1 then rootedPath segs @ ''/'' else rootedPath segs) @ s"
proof (cases "segs = []")
  case True
  then show ?thesis by (simp add: rootedPath_def slashed_def)
next
  case False
  with rootedPath_length(1)[OF assms] have "length (rootedPath segs) \<noteq> 1" by simp
  with False show ?thesis by (simp add: rootedPath_def slashed_snoc)
qed

lemma rooted_backtrack:
  assumes "list_all validSegment segs" and "validSegment s"
  shows "take (backtrack 1 (length (rootedPath (segs @ [s])) - 1) (rootedPath (segs @ [s])))
              (rootedPath (segs @ [s])) = rootedPath segs"
proof (cases "segs = []")
  case True
  from assms(2) have "CHR ''/'' \<notin> set s" "s \<noteq> []" by (simp_all add: validSegment_def)
  with backtrack_rooted_first[of s]
  have "backtrack 1 (length (CHR ''/'' # s) - 1) (CHR ''/'' # s) = 1" by simp
  with True show ?thesis by (simp add: rootedPath_def slashed_def)
next
  case False
  from assms(2) have nosl: "CHR ''/'' \<notin> set s" by (simp add: validSegment_def)
  from False have "1 \<le> length (slashed segs)"
    by (cases segs) (simp_all add: slashed_Cons)
  from backtrack_segment[OF nosl this]
  have "backtrack 1 (length (slashed segs @ CHR ''/'' # s) - 1) (slashed segs @ CHR ''/'' # s)
        = length (slashed segs)" .
  with False show ?thesis by (simp add: rootedPath_def slashed_snoc)
qed

lemma rooted_invariant:
  assumes "list_all validSegment segs"
  shows "\<exists>segs'. list_all validSegment segs' \<and> clean_loop True 1 (rootedPath segs) inp = rootedPath segs'"
  using assms
proof (induction "length inp" arbitrary: inp segs rule: less_induct)
  case less
  show ?case
  proof (cases "inp = []")
    case True
    with less.prems show ?thesis by auto
  next
    case False
    then show ?thesis
    proof (cases inp rule: input_cases)
      case (slash cs)
      with less.hyps[of cs segs] less.prems show ?thesis by (simp add: step_slash)
    next
      case (dot cs)
      with less.hyps[of cs segs] less.prems show ?thesis by (simp add: step_dot)
    next
      case (dotdot cs)
      show ?thesis
      proof (cases "segs = []")
        case True
        with dotdot less.hyps[of cs segs] less.prems show ?thesis
          by (simp add: step_dotdot rootedPath_def)
      next
        case False
        then obtain front s where segs: "segs = front @ [s]"
          by (metis rev_exhaust)
        with less.prems have v: "list_all validSegment front" "validSegment s" by simp_all
        from rootedPath_length(2)[OF less.prems] False
        have "length (rootedPath segs) > 1" by simp
        with dotdot(2) have
          "clean_loop True 1 (rootedPath segs) (CHR ''.'' # CHR ''.'' # cs) =
             clean_loop True 1 (take (backtrack 1 (length (rootedPath segs) - 1) (rootedPath segs))
                                 (rootedPath segs)) cs"
          by (simp add: step_dotdot)
        also have "\<dots> = clean_loop True 1 (rootedPath front) cs"
          using rooted_backtrack[OF v] segs by simp
        finally show ?thesis
          using less.hyps[of cs front] v(1) dotdot(1) by simp
      qed
    next
      case (segment s rest)
      from segment have "length rest < length inp"
        by (simp add: validSegment_def)
      moreover from less.prems segment have "list_all validSegment (segs @ [s])" by simp
      ultimately obtain segs' where "list_all validSegment segs'"
        and "clean_loop True 1 (rootedPath (segs @ [s])) rest = rootedPath segs'"
        using less.hyps[of rest "segs @ [s]"] by blast
      moreover have "clean_loop True 1 (rootedPath segs) inp
                     = clean_loop True 1 (rootedPath (segs @ [s])) rest"
        using segment step_segment[of s rest True 1 "rootedPath segs"]
          rootedPath_snoc[OF less.prems, of s] by simp
      ultimately show ?thesis by auto
    qed
  qed
qed

lemma atBoundary_slashed: "atBoundary rest \<Longrightarrow> atBoundary (slashed ms @ rest)"
  by (cases ms) (simp_all add: atBoundary_def slashed_Cons slashed_Nil)

lemma rooted_append:
  assumes "list_all validSegment segs" and "list_all validSegment ms" and "atBoundary rest"
  shows "clean_loop True 1 (rootedPath segs) (slashed ms @ rest)
         = clean_loop True 1 (rootedPath (segs @ ms)) rest"
  using assms
proof (induction ms arbitrary: segs)
  case Nil
  then show ?case by (simp add: slashed_Nil)
next
  case (Cons m ms)
  from Cons.prems have m: "validSegment m" and ms: "list_all validSegment ms" by simp_all
  have b: "atBoundary (slashed ms @ rest)"
    using Cons.prems(3) by (rule atBoundary_slashed)
  have "clean_loop True 1 (rootedPath segs) (slashed (m # ms) @ rest)
        = clean_loop True 1 (rootedPath segs) (m @ (slashed ms @ rest))"
    by (simp add: slashed_Cons step_slash)
  also have "\<dots> = clean_loop True 1 (rootedPath (segs @ [m])) (slashed ms @ rest)"
    using step_segment[OF m b, of True 1 "rootedPath segs"] rootedPath_snoc[OF Cons.prems(1), of m]
    by simp
  also have "\<dots> = clean_loop True 1 (rootedPath ((segs @ [m]) @ ms)) rest"
    using Cons.prems(1) m ms Cons.prems(3) by (intro Cons.IH) simp_all
  finally show ?case by simp
qed

lemma clean_rootedPath:
  assumes "list_all validSegment segs"
  shows "path_Clean (rootedPath segs) = rootedPath segs"
    and "path_Clean (CHR ''/'' # rootedPath segs) = rootedPath segs"
proof -
  have l: "clean_loop True 1 ''/'' (rootedPath segs) = rootedPath segs"
  proof (cases "segs = []")
    case True
    then show ?thesis by (simp add: rootedPath_def step_slash)
  next
    case False
    have "clean_loop True 1 (rootedPath []) (slashed segs @ []) = clean_loop True 1 (rootedPath ([] @ segs)) []"
      by (rule rooted_append) (use assms in \<open>simp_all add: atBoundary_def\<close>)
    with False show ?thesis by (simp add: rootedPath_def)
  qed
  have ne: "rootedPath segs \<noteq> []" and hd: "hd (rootedPath segs) = CHR ''/''"
    by (cases segs; simp add: rootedPath_def slashed_Cons)+
  then obtain t where t: "rootedPath segs = CHR ''/'' # t" by (cases "rootedPath segs") auto
  with l have "clean_loop True 1 ''/'' t = rootedPath segs" by (simp add: step_slash)
  with t show "path_Clean (rootedPath segs) = rootedPath segs"
    by (simp add: path_Clean_def Let_def)
  from l ne show "path_Clean (CHR ''/'' # rootedPath segs) = rootedPath segs"
    by (simp add: path_Clean_def Let_def)
qed

lemma clean_rooted_form:
  "\<exists>segs. list_all validSegment segs \<and> path_Clean (CHR ''/'' # p) = rootedPath segs"
proof -
  from rooted_invariant[of "[]" p] obtain segs where
    "list_all validSegment segs" and "clean_loop True 1 ''/'' p = rootedPath segs"
    by (auto simp: rootedPath_def)
  moreover have "rootedPath segs \<noteq> []"
    by (cases segs) (simp_all add: rootedPath_def slashed_Cons)
  ultimately show ?thesis by (auto simp: path_Clean_def Let_def)
qed

section \<open>Properties of the path normaliser\<close>

lemma rootedPath_hd: "rootedPath segs \<noteq> [] \<and> hd (rootedPath segs) = CHR ''/''"
  by (cases segs) (simp_all add: rootedPath_def slashed_Cons)

lemma cleanPath_cases:
  obtains "cleanPath p = ''/''"
  | segs where "list_all validSegment segs" and "cleanPath p = rootedPath segs"
      and "\<not> strings_Contains (rootedPath segs) ''..''"
      and "path_Clean (CHR ''/'' # p) = rootedPath segs"
proof -
  from clean_rooted_form[of p] obtain segs where
    v: "list_all validSegment segs" and c: "path_Clean (CHR ''/'' # p) = rootedPath segs"
    by blast
  show thesis
  proof (cases "strings_Contains (rootedPath segs) ''..''")
    case True
    with c have "cleanPath p = ''/''" by (simp add: cleanPath_def Let_def)
    then show thesis by (rule that(1))
  next
    case False
    with c have "cleanPath p = rootedPath segs" by (simp add: cleanPath_def Let_def)
    with v False c show thesis by (intro that(2)[of segs])
  qed
qed

lemma cleanRequestPath_root: "cleanRequestPath ''/''"
proof -
  have "\<not> strings_Contains ''/'' ''..''" by (simp add: strings_Contains_def sublist_code)
  moreover have "''/'' = rootedPath []" by (simp add: rootedPath_def)
  ultimately show ?thesis unfolding cleanRequestPath_def by (intro exI[of _ "[]"]) simp
qed

lemma cleanPath_cleanRequestPath: "cleanRequestPath (cleanPath p)"
proof (cases p rule: cleanPath_cases)
  case 1
  then show ?thesis by (simp add: cleanRequestPath_root)
next
  case (2 segs)
  then show ?thesis unfolding cleanRequestPath_def by auto
qed
















text \<open>
  Claim C4. For every input path, with or without \<^verbatim>\<open>..\<close> segments, \<^verbatim>\<open>cleanPath\<close> returns a
  path that starts with a slash and does not contain the sequence \<^verbatim>\<open>..\<close>; it is a total
  function (there is no error result), and it returns the root when the cleaned path still
  contains \<^verbatim>\<open>..\<close>.
\<close>

theorem cleanPath_rooted_no_dotdot:
  "prefix ''/'' (cleanPath p)
   \<and> \<not> strings_Contains (cleanPath p) ''..''
   \<and> (strings_Contains (path_Clean (''/'' @ p)) ''..'' \<longrightarrow> cleanPath p = ''/'')"
proof -
  from cleanPath_cleanRequestPath[of p] obtain segs where
    "cleanPath p = rootedPath segs" and n: "\<not> strings_Contains (cleanPath p) ''..''"
    unfolding cleanRequestPath_def by blast
  with rootedPath_hd[of segs] have "prefix ''/'' (cleanPath p)"
    by (cases "rootedPath segs") (auto simp: prefix_def)
  with n show ?thesis by (simp add: cleanPath_def Let_def)
qed

theorem cleanPath_rooted_no_dotdot_witness:
  "strings_Contains (path_Clean (''/'' @ ''a/../x..y'')) ''..''
   \<and> cleanPath ''a/../x..y'' = ''/''
   \<and> cleanPath ''../../etc/passwd'' = ''/etc/passwd''
   \<and> prefix ''/'' (cleanPath ''../../etc/passwd'')
   \<and> \<not> strings_Contains (cleanPath ''../../etc/passwd'') ''..''"
proof -
  have c: "strings_Contains (path_Clean (''/'' @ ''a/../x..y'')) ''..''" by code_simp
  have e: "cleanPath ''../../etc/passwd'' = ''/etc/passwd''" by code_simp
  from cleanPath_rooted_no_dotdot[of "''a/../x..y''"] cleanPath_rooted_no_dotdot[of "''../../etc/passwd''"] c e
  show ?thesis by simp
qed

section \<open>Properties of the boot sequence\<close>

lemma EnsureExtracted_conflict:
  assumes "strings_TrimSpace path \<noteq> []" and "os_Stat fs path = Inr info" and "IsDir info"
    and "\<not> markerMatches snap fs path" and "\<not> dirEmpty fs path"
  shows "EnsureExtracted snap fs path False = (fs, False, Some ErrAtomRootExists)"
  using assms by (simp add: EnsureExtracted_def checkTarget_def)

text \<open>
  Claim C1, as stated, fails. On a non-empty directory without a version marker and without
  the force flag \<^verbatim>\<open>EnsureExtracted\<close> returns \<open>ErrAtomRootExists\<close>, but \<^verbatim>\<open>ensureAtomRoot\<close>
  turns that error into a log line, and \<^verbatim>\<open>loadConfig\<close> returns a configuration: the boot
  sequence goes on.
\<close>

theorem archive_conflict_aborts_boot_counterexample:
  "os_Stat fsForeign ''/srv/atom'' = Inr (FileInfo True 493)
   \<and> \<not> dirEmpty fsForeign ''/srv/atom''
   \<and> \<not> markerMatches snapA fsForeign ''/srv/atom''
   \<and> \<not> envBool envAtom ''VALENCE_ATOM_FORCE_EXTRACT'' False
   \<and> EnsureExtracted snapA fsForeign ''/srv/atom'' False
       = (fsForeign, False, Some ErrAtomRootExists)
   \<and> ensureAtomRoot snapA envAtom fsForeign ''/srv/atom''
       = (fsForeign, [''atom root exists at /srv/atom; skipping embedded extraction''], None)
   \<and> loadConfig snapA envAtom ''/'' fsForeign
       = (fsForeign, [''atom root exists at /srv/atom; skipping embedded extraction''],
          Inr (Config '':8080'' ''/srv/atom'' ''/srv/atom/index.php'' []))"
  by code_simp

text \<open>
  Claim C1, amended. When the target is a non-empty directory whose version marker is missing
  or different and force is not requested, \<^verbatim>\<open>EnsureExtracted\<close> returns the distinct error
  \<open>ErrAtomRootExists\<close> and leaves the file system as it is; \<^verbatim>\<open>ensureAtomRoot\<close> logs that
  the extraction is skipped and returns no error, and \<^verbatim>\<open>resolveAtomRoot\<close> answers with the
  existing directory.
\<close>

theorem archive_conflict_tolerated:
  assumes "strings_TrimSpace path \<noteq> []" and "os_Stat fs path = Inr info" and "IsDir info"
    and "\<not> markerMatches snap fs path" and "\<not> dirEmpty fs path"
    and "\<not> envBool env ''VALENCE_ATOM_FORCE_EXTRACT'' False"
    and "strings_TrimSpace (env ''VALENCE_ATOM_SRC_DIR'') \<noteq> []"
    and "filepath_Abs wd (strings_TrimSpace (env ''VALENCE_ATOM_SRC_DIR'')) = path"
  shows "EnsureExtracted snap fs path False = (fs, False, Some ErrAtomRootExists)
    \<and> ensureAtomRoot snap env fs path
        = (fs, [''atom root exists at '' @ path @ ''; skipping embedded extraction''], None)
    \<and> resolveAtomRoot snap env wd fs
        = (fs, [''atom root exists at '' @ path @ ''; skipping embedded extraction''], Inr path)"
proof -
  have e: "EnsureExtracted snap fs path False = (fs, False, Some ErrAtomRootExists)"
    using assms(1-5) by (rule EnsureExtracted_conflict)
  with assms(6) have a: "ensureAtomRoot snap env fs path
        = (fs, [''atom root exists at '' @ path @ ''; skipping embedded extraction''], None)"
    by (simp add: ensureAtomRoot_def Let_def)
  with assms(2,3,7,8) have "resolveAtomRoot snap env wd fs
        = (fs, [''atom root exists at '' @ path @ ''; skipping embedded extraction''], Inr path)"
    by (simp add: resolveAtomRoot_def Let_def)
  with e a show ?thesis by simp
qed

theorem archive_conflict_tolerated_witness:
  "strings_TrimSpace ''/srv/atom'' \<noteq> []
   \<and> os_Stat fsForeign ''/srv/atom'' = Inr (FileInfo True 493)
   \<and> IsDir (FileInfo True 493)
   \<and> \<not> markerMatches snapA fsForeign ''/srv/atom''
   \<and> \<not> dirEmpty fsForeign ''/srv/atom''
   \<and> \<not> envBool envAtom ''VALENCE_ATOM_FORCE_EXTRACT'' False
   \<and> strings_TrimSpace (envAtom ''VALENCE_ATOM_SRC_DIR'') \<noteq> []
   \<and> filepath_Abs ''/'' (strings_TrimSpace (envAtom ''VALENCE_ATOM_SRC_DIR'')) = ''/srv/atom''
   \<and> EnsureExtracted snapA fsForeign ''/srv/atom'' False
       = (fsForeign, False, Some ErrAtomRootExists)
   \<and> ensureAtomRoot snapA envAtom fsForeign ''/srv/atom''
       = (fsForeign, [''atom root exists at /srv/atom; skipping embedded extraction''], None)
   \<and> resolveAtomRoot snapA envAtom ''/'' fsForeign
       = (fsForeign, [''atom root exists at /srv/atom; skipping embedded extraction''],
          Inr ''/srv/atom'')"
proof -
  have h1: "strings_TrimSpace ''/srv/atom'' \<noteq> []" by code_simp
  have h2: "os_Stat fsForeign ''/srv/atom'' = Inr (FileInfo True 493)" by code_simp
  have h3: "IsDir (FileInfo True 493)" by simp
  have h4: "\<not> markerMatches snapA fsForeign ''/srv/atom''" by code_simp
  have h5: "\<not> dirEmpty fsForeign ''/srv/atom''" by code_simp
  have h6: "\<not> envBool envAtom ''VALENCE_ATOM_FORCE_EXTRACT'' False" by code_simp
  have h7: "strings_TrimSpace (envAtom ''VALENCE_ATOM_SRC_DIR'') \<noteq> []" by code_simp
  have h8: "filepath_Abs ''/'' (strings_TrimSpace (envAtom ''VALENCE_ATOM_SRC_DIR'')) = ''/srv/atom''"
    by code_simp
  from archive_conflict_tolerated[OF h1 h2 h3 h4 h5 h6 h7 h8] h1 h2 h3 h4 h5 h6 h7 h8
  show ?thesis by simp
qed

section \<open>Properties of the file system\<close>

lemma lookup_update:
  "lookup (AList.update k v fs) q =
     (if q = ''/'' \<or> q = ''.'' then Some (Dir 493) else if q = k then Some v else lookup fs q)"
  by (simp add: lookup_def update_conv')

lemma changes_refl: "changes A fs fs"
  by (simp add: changes_def)

lemma changes_mono: "changes A fs fs' \<Longrightarrow> (\<And>q n. A q n \<Longrightarrow> B q n) \<Longrightarrow> changes B fs fs'"
  unfolding changes_def by blast

lemma replaceable_dir: "isDirNode old \<Longrightarrow> \<not> replaceable old n"
  by (auto simp: isDirNode_def replaceable_def split: option.splits node.splits)

lemma replaceable_trans:
  "replaceable old n \<Longrightarrow> replaceable (Some n) n' \<Longrightarrow> replaceable old n'"
  by (auto simp: replaceable_def split: option.splits node.splits)

lemma changes_dir:
  assumes "changes A fs fs'" and "isDirNode (lookup fs q)"
  shows "lookup fs' q = lookup fs q"
  using assms replaceable_dir unfolding changes_def by blast

lemma changes_trans:
  assumes "changes A fs fs'" and "changes A fs' fs''"
  shows "changes A fs fs''"
  unfolding changes_def
proof
  fix q
  from assms(2) consider "lookup fs'' q = lookup fs' q"
    | n where "lookup fs'' q = Some n" "A q n" "replaceable (lookup fs' q) n"
    unfolding changes_def by blast
  then show "lookup fs'' q = lookup fs q
          \<or> (\<exists>n. lookup fs'' q = Some n \<and> A q n \<and> replaceable (lookup fs q) n)"
  proof cases
    case 1
    with assms(1) show ?thesis unfolding changes_def by metis
  next
    case 2
    from assms(1) consider "lookup fs' q = lookup fs q"
      | n' where "lookup fs' q = Some n'" "replaceable (lookup fs q) n'"
      unfolding changes_def by blast
    then have "replaceable (lookup fs q) n"
    proof cases
      case 1
      with 2(3) show ?thesis by simp
    next
      case (2 n')
      with \<open>replaceable (lookup fs' q) n\<close> show ?thesis
        using replaceable_trans by simp
    qed
    with 2 show ?thesis by blast
  qed
qed

lemma changes_update:
  assumes "replaceable (lookup fs p) n" and "A p n"
  shows "changes A fs (AList.update p n fs)"
  unfolding changes_def
proof
  fix q
  show "lookup (AList.update p n fs) q = lookup fs q
      \<or> (\<exists>x. lookup (AList.update p n fs) q = Some x \<and> A q x \<and> replaceable (lookup fs q) x)"
  proof (cases "q = ''/'' \<or> q = ''.''")
    case True
    then show ?thesis by (auto simp: lookup_def)
  next
    case False
    with assms show ?thesis by (auto simp: lookup_update)
  qed
qed

lemma createIn_changes:
  assumes "createIn fs p n = (fs', r)" and "lookup fs p = None" and "A p n"
  shows "changes A fs fs'"
proof -
  from assms(2) have nd: "replaceable (lookup fs p) n" by (simp add: replaceable_def)
  from assms(1) have "fs' = fs \<or> fs' = AList.update p n fs"
    by (auto simp: createIn_def split: option.splits node.splits)
  with changes_update[where A = A, OF nd assms(3)] show ?thesis by (auto simp: changes_refl)
qed

lemma createIn_ok:
  assumes "createIn fs p n = (fs', None)"
  shows "fs' = AList.update p n fs" and "isDirNode (lookup fs (parentDir p))"
  using assms by (auto simp: createIn_def isDirNode_def split: option.splits node.splits)

lemma createIn_err: "createIn fs p n = (fs', Some e) \<Longrightarrow> fs' = fs"
  by (auto simp: createIn_def split: option.splits node.splits)

lemma os_Mkdir_changes:
  assumes "os_Mkdir fs p perm = (fs', r)"
  shows "changes (\<lambda>q n. q = p \<and> n = Dir perm) fs fs'"
proof (cases "lookup fs p")
  case None
  with assms have "createIn fs p (Dir perm) = (fs', r)" by (simp add: os_Mkdir_def)
  then show ?thesis by (rule createIn_changes) (simp_all add: None)
next
  case (Some n)
  with assms have "fs' = fs" by (simp add: os_Mkdir_def)
  then show ?thesis by (simp add: changes_refl)
qed

lemma mkdirLast_changes:
  assumes "mkdirLast fs p perm = (fs', r)"
  shows "changes (\<lambda>q n. q = p \<and> n = Dir perm) fs fs'"
proof -
  obtain fs1 r1 where m: "os_Mkdir fs p perm = (fs1, r1)" by (cases "os_Mkdir fs p perm")
  with assms have "fs' = fs1"
    by (auto simp: mkdirLast_def split: option.splits node.splits)
  with os_Mkdir_changes[OF m] show ?thesis by simp
qed

lemma mkdirLast_ok:
  assumes "mkdirLast fs p perm = (fs', None)"
  shows "isDirNode (lookup fs' p)"
proof -
  obtain fs1 r1 where m: "os_Mkdir fs p perm = (fs1, r1)" by (cases "os_Mkdir fs p perm")
  show ?thesis
  proof (cases r1)
    case None
    with m assms have f: "fs' = fs1" by (simp add: mkdirLast_def)
    from m None have "lookup fs p = None" and c: "createIn fs p (Dir perm) = (fs1, None)"
      by (auto simp: os_Mkdir_def split: option.splits)
    from createIn_ok(1)[OF c] f have "fs' = AList.update p (Dir perm) fs" by simp
    then show ?thesis by (simp add: lookup_update isDirNode_def)
  next
    case (Some e)
    with m assms show ?thesis
      by (auto simp: mkdirLast_def isDirNode_def split: option.splits node.splits)
  qed
qed

lemma os_Stat_dir: "os_Stat fs p = Inr info \<Longrightarrow> IsDir info \<longleftrightarrow> isDirNode (lookup fs p)"
  by (auto simp: os_Stat_def isDirNode_def split: option.splits node.splits)

lemma os_Stat_isDir:
  "isDirNode (lookup fs p) \<Longrightarrow> \<exists>m. os_Stat fs p = Inr (FileInfo True m)"
  by (auto simp: os_Stat_def isDirNode_def split: option.splits node.splits)

lemma os_MkdirAll_region:
  assumes "os_MkdirAll fs p perm = (fs', r)"
    and "R p"
    and "\<And>q. R q \<Longrightarrow> \<not> isDirNode (lookup fs q) \<Longrightarrow> R (parentDir q)"
  shows "changes (\<lambda>q n. R q \<and> n = Dir perm) fs fs'"
  using assms
proof (induction fs p perm arbitrary: fs' r rule: os_MkdirAll.induct)
  case (1 fs p perm)
  show ?case
  proof (cases "os_Stat fs p")
    case (Inr info)
    with "1.prems"(1) have "fs' = fs"
      by (subst (asm) os_MkdirAll.simps) (auto split: if_splits)
    then show ?thesis by (simp add: changes_refl)
  next
    case (Inl err)
    then have nd: "\<not> isDirNode (lookup fs p)"
      using os_Stat_isDir[of fs p] by auto
    show ?thesis
    proof (cases "length (parentDir p) < length p \<and> parentDir p \<noteq> ''/'' \<and> parentDir p \<noteq> ''.''")
      case True
      obtain fs1 r1 where rec: "os_MkdirAll fs (parentDir p) perm = (fs1, r1)"
        by (cases "os_MkdirAll fs (parentDir p) perm")
      have c1: "changes (\<lambda>q n. R q \<and> n = Dir perm) fs fs1"
        using Inl True rec "1.prems"(2,3) nd by (intro "1.IH"[of err fs1 r1]) auto
      show ?thesis
      proof (cases r1)
        case None
        with "1.prems"(1) Inl True rec have "mkdirLast fs1 p perm = (fs', r)"
          by (subst (asm) os_MkdirAll.simps) simp
        then have "changes (\<lambda>q n. R q \<and> n = Dir perm) fs1 fs'"
          by (rule changes_mono[OF mkdirLast_changes]) (use "1.prems"(2) in simp)
        with c1 show ?thesis by (rule changes_trans)
      next
        case (Some e)
        with "1.prems"(1) Inl True rec have "fs' = fs1"
          by (subst (asm) os_MkdirAll.simps) simp
        with c1 show ?thesis by simp
      qed
    next
      case False
      with "1.prems"(1) Inl have "mkdirLast fs p perm = (fs', r)"
        by (subst (asm) os_MkdirAll.simps) auto
      then show ?thesis
        by (rule changes_mono[OF mkdirLast_changes]) (use "1.prems"(2) in simp)
    qed
  qed
qed

lemma os_MkdirAll_changes:
  assumes "os_MkdirAll fs p perm = (fs', r)"
  shows "changes (\<lambda>q n. n = Dir perm) fs fs'"
proof -
  have "changes (\<lambda>q n. True \<and> n = Dir perm) fs fs'"
    using assms by (rule os_MkdirAll_region) simp_all
  then show ?thesis by simp
qed

lemma os_MkdirAll_ok:
  assumes "os_MkdirAll fs p perm = (fs', None)"
  shows "isDirNode (lookup fs' p)"
proof (cases "os_Stat fs p")
  case (Inr info)
  with assms have "fs' = fs" and "IsDir info"
    by (subst (asm) os_MkdirAll.simps; auto split: if_splits)+
  with os_Stat_dir[OF Inr] show ?thesis by simp
next
  case (Inl err)
  show ?thesis
  proof (cases "length (parentDir p) < length p \<and> parentDir p \<noteq> ''/'' \<and> parentDir p \<noteq> ''.''")
    case True
    obtain fs1 r1 where rec: "os_MkdirAll fs (parentDir p) perm = (fs1, r1)"
      by (cases "os_MkdirAll fs (parentDir p) perm")
    with assms Inl True have "mkdirLast fs1 p perm = (fs', None)"
      by (subst (asm) os_MkdirAll.simps) (auto split: option.splits)
    then show ?thesis by (rule mkdirLast_ok)
  next
    case False
    with assms Inl have "mkdirLast fs p perm = (fs', None)"
      by (subst (asm) os_MkdirAll.simps) auto
    then show ?thesis by (rule mkdirLast_ok)
  qed
qed

lemma lookup_update_other: "q \<noteq> k \<Longrightarrow> lookup (AList.update k v fs) q = lookup fs q"
  by (simp add: lookup_def update_conv')

lemma os_OpenFile_err: "os_OpenFile fs p perm = (fs', Some e) \<Longrightarrow> fs' = fs"
  by (auto simp: os_OpenFile_def split: option.splits node.splits dest: createIn_err)

lemma os_OpenFile_ok:
  assumes "os_OpenFile fs p perm = (fs', None)"
  shows "\<exists>m. fs' = AList.update p (File m []) fs" and "replaceable (lookup fs p) (File m' d)"
    and "p \<noteq> ''/''" and "p \<noteq> ''.''"
proof -
  show "\<exists>m. fs' = AList.update p (File m []) fs"
    using assms by (auto simp: os_OpenFile_def split: option.splits node.splits dest: createIn_ok(1))
  show "replaceable (lookup fs p) (File m' d)"
    using assms by (auto simp: os_OpenFile_def replaceable_def split: option.splits node.splits)
  from assms have "\<not> isDirNode (lookup fs p)"
    by (auto simp: os_OpenFile_def isDirNode_def split: option.splits node.splits)
  then show "p \<noteq> ''/''" and "p \<noteq> ''.''"
    by (auto simp: lookup_def isDirNode_def)
qed

lemma open_write:
  assumes "os_OpenFile fs p perm = (fs1, None)"
  shows "\<exists>m. lookup (file_Write fs1 p d) p = Some (File m d)"
    and "changes (\<lambda>q n. q = p \<and> (\<exists>m. n = File m d)) fs (file_Write fs1 p d)"
proof -
  from os_OpenFile_ok(1,3,4)[OF assms] obtain m where
    fs1: "fs1 = AList.update p (File m []) fs" and p: "p \<noteq> ''/''" "p \<noteq> ''.''"
    by blast
  note nd = os_OpenFile_ok(2)[OF assms, of m d]
  from fs1 p have l1: "lookup fs1 p = Some (File m [])" by (simp add: lookup_update)
  then have w: "file_Write fs1 p d = AList.update p (File m d) fs1"
    by (simp add: file_Write_def)
  with p show "\<exists>m. lookup (file_Write fs1 p d) p = Some (File m d)"
    by (simp add: lookup_update)
  show "changes (\<lambda>q n. q = p \<and> (\<exists>m. n = File m d)) fs (file_Write fs1 p d)"
    unfolding changes_def
  proof
    fix q
    show "lookup (file_Write fs1 p d) q = lookup fs q
      \<or> (\<exists>n. lookup (file_Write fs1 p d) q = Some n \<and> (q = p \<and> (\<exists>m. n = File m d))
              \<and> replaceable (lookup fs q) n)"
    proof (cases "q = p")
      case True
      with w p nd show ?thesis by (simp add: lookup_update)
    next
      case False
      with w fs1 show ?thesis by (simp add: lookup_update_other)
    qed
  qed
qed

lemma os_WriteFile_err: "os_WriteFile fs p d perm = (fs', Some e) \<Longrightarrow> fs' = fs"
  by (auto simp: os_WriteFile_def split: prod.splits option.splits dest: os_OpenFile_err)

lemma os_WriteFile_ok:
  assumes "os_WriteFile fs p d perm = (fs', None)"
  shows "os_ReadFile fs' p = Inr d"
    and "changes (\<lambda>q n. q = p \<and> (\<exists>m. n = File m d)) fs fs'"
proof -
  from assms obtain fs1 where o: "os_OpenFile fs p perm = (fs1, None)"
    and f: "fs' = file_Write fs1 p d"
    by (auto simp: os_WriteFile_def split: prod.splits option.splits)
  from open_write(1)[OF o, of d] f show "os_ReadFile fs' p = Inr d"
    by (auto simp: os_ReadFile_def)
  from open_write(2)[OF o, of d] f
  show "changes (\<lambda>q n. q = p \<and> (\<exists>m. n = File m d)) fs fs'" by simp
qed

lemma os_Symlink_changes:
  assumes "os_Symlink fs old new = (fs', r)"
  shows "changes (\<lambda>q n. q = new \<and> n = Symlink old) fs fs'"
proof (cases "lookup fs new")
  case None
  with assms have "createIn fs new (Symlink old) = (fs', r)" by (simp add: os_Symlink_def)
  then show ?thesis by (rule createIn_changes) (simp_all add: None)
next
  case (Some n)
  with assms have "fs' = fs" by (simp add: os_Symlink_def)
  then show ?thesis by (simp add: changes_refl)
qed

lemma writeRegular_changes:
  assumes "writeRegular fs dst hdr = (fs', r)"
    and "R (filepath_Dir dst)"
    and "\<And>q. R q \<Longrightarrow> \<not> isDirNode (lookup fs q) \<Longrightarrow> R (parentDir q)"
  shows "changes (\<lambda>q n. (R q \<and> n = Dir 493) \<or> (q = dst \<and> (\<exists>m. n = File m (Data hdr)))) fs fs'"
proof -
  let ?A = "\<lambda>q n. (R q \<and> n = Dir 493) \<or> (q = dst \<and> (\<exists>m. n = File m (Data hdr)))"
  obtain fs1 r1 where m: "os_MkdirAll fs (filepath_Dir dst) 493 = (fs1, r1)"
    by (cases "os_MkdirAll fs (filepath_Dir dst) 493")
  have c1: "changes ?A fs fs1"
    by (rule changes_mono[OF os_MkdirAll_region[OF m, of R]]) (use assms(2,3) in auto)
  show ?thesis
  proof (cases r1)
    case (Some e)
    with m assms(1) have "fs' = fs1" by (simp add: writeRegular_def)
    with c1 show ?thesis by simp
  next
    case None
    obtain fs2 r2 where o: "os_OpenFile fs1 dst (Mode hdr mod 512) = (fs2, r2)"
      by (cases "os_OpenFile fs1 dst (Mode hdr mod 512)")
    show ?thesis
    proof (cases r2)
      case (Some e)
      with o have "fs2 = fs1" by (auto dest: os_OpenFile_err)
      with m None o Some assms(1) have "fs' = fs1" by (simp add: writeRegular_def)
      with c1 show ?thesis by simp
    next
      case n2: None
      with m None o assms(1) have f: "fs' = file_Write fs2 dst (Data hdr)"
        by (auto simp: writeRegular_def split: option.splits)
      from o n2 have "changes (\<lambda>q n. q = dst \<and> (\<exists>m. n = File m (Data hdr))) fs1 (file_Write fs2 dst (Data hdr))"
        by (intro open_write(2)) simp
      then have "changes ?A fs1 fs'"
        unfolding f by (rule changes_mono) simp
      with c1 show ?thesis by (rule changes_trans)
    qed
  qed
qed

lemma writeSymlink_changes:
  assumes "writeSymlink fs dst hdr = (fs', r)"
    and "R (filepath_Dir dst)"
    and "\<And>q. R q \<Longrightarrow> \<not> isDirNode (lookup fs q) \<Longrightarrow> R (parentDir q)"
  shows "changes (\<lambda>q n. (R q \<and> n = Dir 493) \<or> (q = dst \<and> n = Symlink (Linkname hdr))) fs fs'"
proof -
  let ?A = "\<lambda>q n. (R q \<and> n = Dir 493) \<or> (q = dst \<and> n = Symlink (Linkname hdr))"
  obtain fs1 r1 where m: "os_MkdirAll fs (filepath_Dir dst) 493 = (fs1, r1)"
    by (cases "os_MkdirAll fs (filepath_Dir dst) 493")
  have c1: "changes ?A fs fs1"
    by (rule changes_mono[OF os_MkdirAll_region[OF m, of R]]) (use assms(2,3) in auto)
  show ?thesis
  proof (cases r1)
    case (Some e)
    with m assms(1) have "fs' = fs1" by (simp add: writeSymlink_def)
    with c1 show ?thesis by simp
  next
    case None
    obtain fs2 r2 where s: "os_Symlink fs1 (Linkname hdr) dst = (fs2, r2)"
      by (cases "os_Symlink fs1 (Linkname hdr) dst")
    with m None assms(1) have f: "fs' = fs2"
      by (auto simp: writeSymlink_def split: option.splits if_splits)
    have "changes ?A fs1 fs2"
      by (rule changes_mono[OF os_Symlink_changes[OF s]]) simp
    with c1 f show ?thesis by (auto intro: changes_trans)
  qed
qed

lemma extractEntry_changes_any:
  assumes "extractEntry fs target hdr = (fs', r)"
  shows "changes (\<lambda>q n. entryNode hdr n) fs fs'"
proof -
  let ?dst = "filepath_Join [target, filepath_Clean (Name hdr)]"
  have reg: "writeRegular fs ?dst hdr = (fs', r) \<Longrightarrow> changes (\<lambda>q n. entryNode hdr n) fs fs'"
    by (rule changes_mono[OF writeRegular_changes[of fs ?dst hdr fs' r "\<lambda>q. True"]])
      (auto simp: entryNode_def)
  have sym: "writeSymlink fs ?dst hdr = (fs', r) \<Longrightarrow> changes (\<lambda>q n. entryNode hdr n) fs fs'"
    by (rule changes_mono[OF writeSymlink_changes[of fs ?dst hdr fs' r "\<lambda>q. True"]])
      (auto simp: entryNode_def)
  have dir: "os_MkdirAll fs ?dst (Mode hdr mod 512) = (fs', r)
             \<Longrightarrow> changes (\<lambda>q n. entryNode hdr n) fs fs'"
    by (rule changes_mono[OF os_MkdirAll_changes]) (auto simp: entryNode_def)
  from assms reg sym dir show ?thesis
    by (auto simp: extractEntry_def Let_def changes_refl split: if_splits typeflag.splits)
qed

lemma extractEntries_changes_any:
  assumes "extractEntries fs target es end = (fs', r)"
  shows "changes (\<lambda>q n. entriesNode es n) fs fs'"
  using assms
proof (induction es arbitrary: fs)
  case Nil
  then show ?case by (simp add: changes_refl)
next
  case (Cons hdr es)
  obtain fs1 r1 where e: "extractEntry fs target hdr = (fs1, r1)"
    by (cases "extractEntry fs target hdr")
  have c1: "changes (\<lambda>q n. entriesNode (hdr # es) n) fs fs1"
    by (rule changes_mono[OF extractEntry_changes_any[OF e]]) (simp add: entriesNode_def)
  show ?case
  proof (cases r1)
    case (Some err)
    with e Cons.prems have "fs' = fs1" by simp
    with c1 show ?thesis by simp
  next
    case None
    with e Cons.prems have "extractEntries fs1 target es end = (fs', r)" by simp
    then have "changes (\<lambda>q n. entriesNode es n) fs1 fs'" by (rule Cons.IH)
    then have "changes (\<lambda>q n. entriesNode (hdr # es) n) fs1 fs'"
      by (rule changes_mono) (simp add: entriesNode_def)
    with c1 show ?thesis by (rule changes_trans)
  qed
qed

section \<open>Properties of the archive materialiser\<close>

lemma hex_chars: "set (hex_EncodeToString bs) \<subseteq> set hextable"
proof (induction bs)
  case Nil
  show ?case by simp
next
  case (Cons b bs)
  have "(of_char b :: nat) mod 256 < 256" by (rule mod_less_divisor) simp
  then have "(of_char b :: nat) < 256" by (simp only: of_char_mod_256)
  then have "(of_char b :: nat) div 16 < 16" "(of_char b :: nat) mod 16 < 16"
    by arith+
  moreover have "length hextable = 16" by (simp add: hextable_def)
  ultimately have "(of_char b :: nat) div 16 < length hextable"
    "(of_char b :: nat) mod 16 < length hextable"
    by simp_all
  then have "hextable ! ((of_char b :: nat) div 16) \<in> set hextable"
    "hextable ! ((of_char b :: nat) mod 16) \<in> set hextable"
    by (simp_all only: nth_mem)
  with Cons show ?case by simp
qed

lemma no_space_prefix:
  assumes "c \<in> set hextable" and "w \<in> set unicodeSpaces"
  shows "\<not> prefix w (c # t)"
  using assms by (auto simp: hextable_def unicodeSpaces_def)

lemma no_space_suffix:
  assumes "c \<in> set hextable" and "w \<in> set unicodeSpaces"
  shows "\<not> suffix w (t @ [c])"
  using assms by (auto simp: hextable_def unicodeSpaces_def suffix_def)

lemma leadingSpace_hex:
  assumes "set s \<subseteq> set hextable"
  shows "leadingSpace s = 0"
proof (cases s)
  case Nil
  have "find (\<lambda>w. prefix w []) unicodeSpaces = None"
    by (simp add: find_None_iff unicodeSpaces_def)
  with Nil show ?thesis by (simp add: leadingSpace_def)
next
  case (Cons c t)
  with assms have "c \<in> set hextable" by simp
  then have "find (\<lambda>w. prefix w (c # t)) unicodeSpaces = None"
    using no_space_prefix by (auto simp: find_None_iff)
  with Cons show ?thesis by (simp add: leadingSpace_def)
qed

lemma trailingSpace_hex:
  assumes "set s \<subseteq> set hextable"
  shows "trailingSpace s = 0"
proof (cases s rule: rev_cases)
  case Nil
  have "find (\<lambda>w. suffix w []) unicodeSpaces = None"
    by (simp add: find_None_iff unicodeSpaces_def)
  with Nil show ?thesis by (simp add: trailingSpace_def)
next
  case (snoc t c)
  with assms have "c \<in> set hextable" by simp
  then have "find (\<lambda>w. suffix w (t @ [c])) unicodeSpaces = None"
    using no_space_suffix by (auto simp: find_None_iff)
  with snoc show ?thesis by (simp add: trailingSpace_def)
qed

lemma TrimSpace_hex: "strings_TrimSpace (hex_EncodeToString bs) = hex_EncodeToString bs"
proof -
  have l: "trimLeft (hex_EncodeToString bs) = hex_EncodeToString bs"
    by (subst trimLeft.simps) (simp add: leadingSpace_hex[OF hex_chars])
  have r: "trimRight (hex_EncodeToString bs) = hex_EncodeToString bs"
    by (subst trimRight.simps) (simp add: trailingSpace_hex[OF hex_chars])
  from l r show ?thesis by (simp add: strings_TrimSpace_def)
qed

lemma TrimSpace_ArchiveHash: "strings_TrimSpace (ArchiveHash snap) = ArchiveHash snap"
  by (simp add: ArchiveHash_def TrimSpace_hex)

lemma checkTarget_Inr_nonblank:
  "checkTarget snap fs target force = Inr fsX \<Longrightarrow> strings_TrimSpace target \<noteq> []"
  by (auto simp: checkTarget_def split: if_splits)

lemma extractArchive_ok_dir:
  assumes "extractArchive snap fs target = (fs1, None)"
  shows "isDirNode (lookup fs1 target)"
proof -
  from assms obtain fsM where m: "os_MkdirAll fs target 493 = (fsM, None)"
    and e: "extractEntries fsM target (entries snap) (streamErr snap) = (fs1, None)"
    by (auto simp: extractArchive_def split: if_splits prod.splits option.splits)
  from os_MkdirAll_ok[OF m] have "isDirNode (lookup fsM target)" .
  with changes_dir[OF extractEntries_changes_any[OF e]] show ?thesis by simp
qed

lemma marked_target:
  assumes "isDirNode (lookup fs1 target)"
    and "os_WriteFile fs1 (filepath_Join [target, markerFile]) (ArchiveHash snap) 420 = (fs2, None)"
  shows "\<exists>m. os_Stat fs2 target = Inr (FileInfo True m)" and "markerMatches snap fs2 target"
proof -
  from changes_dir[OF os_WriteFile_ok(2)[OF assms(2)] assms(1)] assms(1)
  have "isDirNode (lookup fs2 target)" by simp
  then show "\<exists>m. os_Stat fs2 target = Inr (FileInfo True m)" by (rule os_Stat_isDir)
  from os_WriteFile_ok(1)[OF assms(2)] show "markerMatches snap fs2 target"
    by (simp add: markerMatches_def TrimSpace_ArchiveHash)
qed




lemma clean_abs_form:
  assumes "filepath_IsAbs t" and "filepath_Clean t = t"
  shows "\<exists>segs. list_all validSegment segs \<and> t = rootedPath segs"
proof -
  from assms(1) obtain p where t: "t = CHR ''/'' # p"
    by (auto simp: filepath_IsAbs_def prefix_def)
  from clean_rooted_form[of p] obtain segs where
    "list_all validSegment segs" and "path_Clean (CHR ''/'' # p) = rootedPath segs"
    by blast
  with assms(2) t show ?thesis by (auto simp: filepath_Clean_def)
qed

lemma rootedPath_append:
  assumes "list_all validSegment segs" and "ms \<noteq> []"
  shows "rootedPath (segs @ ms) = (if segs = [] then [] else rootedPath segs) @ slashed ms"
  using assms by (simp add: rootedPath_def slashed_def)

lemma join_segments:
  assumes "list_all validSegment segs" and "list_all validSegment ms" and "ms \<noteq> []"
  shows "filepath_Join [rootedPath segs, tl (slashed ms)] = rootedPath (segs @ ms)"
proof -
  from assms(3) have sl: "slashed ms = CHR ''/'' # tl (slashed ms)"
    by (cases ms) (simp_all add: slashed_Cons)
  have ne: "rootedPath segs \<noteq> []" using rootedPath_hd by simp
  have v: "list_all validSegment (segs @ ms)" using assms by simp
  have "path_Clean (rootedPath segs @ slashed ms) = rootedPath (segs @ ms)"
  proof (cases "segs = []")
    case True
    have "path_Clean (CHR ''/'' # rootedPath ms) = rootedPath ms"
      by (rule clean_rootedPath(2)) (rule assms(2))
    with True assms(3) show ?thesis by (simp add: rootedPath_def)
  next
    case False
    with rootedPath_append[OF assms(1,3)]
    have "rootedPath segs @ slashed ms = rootedPath (segs @ ms)" by simp
    with clean_rootedPath(1)[OF v] show ?thesis by simp
  qed
  moreover have "strings_Join [rootedPath segs, tl (slashed ms)] ''/'' = rootedPath segs @ slashed ms"
    using sl by simp
  ultimately show ?thesis using ne by (simp add: filepath_Clean_def)
qed

lemma join_segment:
  assumes "list_all validSegment segs" and "validSegment m"
  shows "filepath_Join [rootedPath segs, m] = rootedPath (segs @ [m])"
  using join_segments[OF assms(1), of "[m]"] assms(2) by (simp add: slashed_def)

lemma parentDir_append:
  assumes "CHR ''/'' \<notin> set m"
  shows "parentDir (pre @ CHR ''/'' # m) = (if pre = [] then ''/'' else pre)"
proof -
  from assms have "CHR ''/'' \<notin> set (rev m)" by simp
  moreover have "atBoundary (CHR ''/'' # rev pre)" by (simp add: atBoundary_def)
  ultimately
  have "dropWhile (\<lambda>c. c \<noteq> CHR ''/'') (rev m @ CHR ''/'' # rev pre) = CHR ''/'' # rev pre"
    by (rule takeWhile_segment(2))
  then have "rev (dropWhile (\<lambda>c. c \<noteq> CHR ''/'') (rev (pre @ CHR ''/'' # m))) = pre @ ''/''"
    by simp
  then show ?thesis by (cases "pre = []") (simp_all add: parentDir_def Let_def)
qed

lemma parentDir_snoc:
  assumes "list_all validSegment segs" and "validSegment m"
  shows "parentDir (rootedPath (segs @ [m])) = rootedPath segs"
proof -
  from assms(2) have nosl: "CHR ''/'' \<notin> set m" by (simp add: validSegment_def)
  have "rootedPath (segs @ [m]) = slashed segs @ CHR ''/'' # m"
    by (simp add: rootedPath_def slashed_snoc)
  with parentDir_append[OF nosl, of "slashed segs"] show ?thesis
    by (simp add: rootedPath_def slashed_eq_Nil)
qed

lemma within_append:
  assumes "list_all validSegment segs"
  shows "within (rootedPath segs) (rootedPath (segs @ ms))"
proof (cases "ms = []")
  case True
  then show ?thesis by (simp add: within_def)
next
  case False
  then obtain m rest where ms: "ms = m # rest" by (cases ms) auto
  show ?thesis
  proof (cases "segs = []")
    case True
    with ms show ?thesis by (simp add: within_def rootedPath_def slashed_Cons)
  next
    case nonempty: False
    then have "rootedPath segs \<noteq> ''/''"
      using rootedPath_length(1)[OF assms] by auto
    moreover have "rootedPath (segs @ ms) = rootedPath segs @ CHR ''/'' # m @ slashed rest"
      using nonempty ms by (simp add: rootedPath_def slashed_def)
    ultimately show ?thesis by (simp add: within_def)
  qed
qed

lemma rootedPath_snoc_neq:
  assumes "list_all validSegment segs" and "validSegment m"
  shows "rootedPath (segs @ [m]) \<noteq> rootedPath segs"
    and "rootedPath (segs @ [m]) \<noteq> ''/''" and "rootedPath (segs @ [m]) \<noteq> ''.''"
proof -
  from assms(2) have "m \<noteq> []" by (simp add: validSegment_def)
  then have "length (rootedPath (segs @ [m])) > length (rootedPath segs)"
    by (cases "segs = []") (simp_all add: rootedPath_def slashed_snoc slashed_def)
  then show "rootedPath (segs @ [m]) \<noteq> rootedPath segs" by auto
  from assms have "list_all validSegment (segs @ [m])" by simp
  from rootedPath_length(1)[OF this] show "rootedPath (segs @ [m]) \<noteq> ''/''" by auto
  from rootedPath_hd[of "segs @ [m]"] show "rootedPath (segs @ [m]) \<noteq> ''.''"
    by (cases "rootedPath (segs @ [m])") auto
qed

lemma validSegment_markerFile: "validSegment markerFile"
  by (simp add: validSegment_def markerFile_def)

lemma marker_path:
  assumes "filepath_IsAbs target" and "filepath_Clean target = target"
  shows "parentDir (filepath_Join [target, markerFile]) = target"
    and "filepath_Join [target, markerFile] \<noteq> target"
    and "filepath_Join [target, markerFile] \<noteq> ''/''"
    and "filepath_Join [target, markerFile] \<noteq> ''.''"
    and "within target (filepath_Join [target, markerFile])"
proof -
  from clean_abs_form[OF assms] obtain segs where v: "list_all validSegment segs"
    and t: "target = rootedPath segs" by blast
  note j = join_segment[OF v validSegment_markerFile]
  show "parentDir (filepath_Join [target, markerFile]) = target"
    using parentDir_snoc[OF v validSegment_markerFile] j t by simp
  show "filepath_Join [target, markerFile] \<noteq> target"
    using rootedPath_snoc_neq(1)[OF v validSegment_markerFile] j t by simp
  show "filepath_Join [target, markerFile] \<noteq> ''/''"
    using rootedPath_snoc_neq(2)[OF v validSegment_markerFile] j t by simp
  show "filepath_Join [target, markerFile] \<noteq> ''.''"
    using rootedPath_snoc_neq(3)[OF v validSegment_markerFile] j t by simp
  show "within target (filepath_Join [target, markerFile])"
    using within_append[OF v, of "[markerFile]"] j t by simp
qed

lemma lookup_key:
  assumes "lookup fs q = Some n" and "q \<noteq> ''/''" and "q \<noteq> ''.''"
  shows "q \<in> set (map fst fs)"
  using assms by (auto simp: lookup_def dest: map_of_SomeD intro: rev_image_eqI)

lemma dirEmpty_no_child:
  assumes "dirEmpty fs target" and "parentDir q = target" and "q \<noteq> target"
    and "q \<noteq> ''/''" and "q \<noteq> ''.''"
  shows "lookup fs q = None"
proof (rule ccontr)
  assume "lookup fs q \<noteq> None"
  then obtain n where "lookup fs q = Some n" by auto
  from lookup_key[OF this assms(4,5)] assms(2,3)
  have "q \<in> set (filter (\<lambda>k. parentDir k = target \<and> k \<noteq> target) (remdups (map fst fs)))"
    by simp
  then have "filter (\<lambda>k. parentDir k = target \<and> k \<noteq> target) (remdups (map fst fs)) \<noteq> []"
    by (metis empty_iff empty_set)
  with assms(1) show False
    by (auto simp: dirEmpty_def os_ReadDir_def split: option.splits node.splits)
qed

lemma child_not_dirEmpty:
  assumes "lookup fs q = Some n" and "parentDir q = target" and "q \<noteq> target"
    and "q \<noteq> ''/''" and "q \<noteq> ''.''"
  shows "\<not> dirEmpty fs target"
  using assms dirEmpty_no_child by fastforce

lemma map_of_filter_key:
  "map_of (filter (\<lambda>(k, n). P k) xs) q = (if P q then map_of xs q else None)"
  by (induction xs) auto

lemma lookup_RemoveAll:
  "lookup (fst (os_RemoveAll fs t)) q =
     (if q = ''/'' \<or> q = ''.'' then Some (Dir 493)
      else if within t q then None else lookup fs q)"
  by (simp add: os_RemoveAll_def lookup_def map_of_filter_key)

lemma os_RemoveAll_ok: "os_RemoveAll fs t = (fst (os_RemoveAll fs t), None)"
  by (simp add: os_RemoveAll_def)

lemma EnsureExtracted_extracted:
  assumes "EnsureExtracted snap fs target force = (fs2, True, None)"
  shows "\<exists>fsX fs1. checkTarget snap fs target force = Inr fsX
           \<and> extractArchive snap fsX target = (fs1, None)
           \<and> os_WriteFile fs1 (filepath_Join [target, markerFile]) (ArchiveHash snap) 420 = (fs2, None)"
proof (cases "checkTarget snap fs target force")
  case (Inl res)
  then have "fst (snd res) = False"
    by (auto simp: checkTarget_def os_RemoveAll_def split: if_splits sum.splits)
  with Inl assms show ?thesis by (simp add: EnsureExtracted_def)
next
  case (Inr fsX)
  with assms have "extractAndMark snap fsX target = (fs2, True, None)"
    by (simp add: EnsureExtracted_def)
  then have "\<exists>fs1. extractArchive snap fsX target = (fs1, None)
           \<and> os_WriteFile fs1 (filepath_Join [target, markerFile]) (ArchiveHash snap) 420 = (fs2, None)"
    by (auto simp: extractAndMark_def split: prod.splits option.splits)
  with Inr show ?thesis by blast
qed

lemma extractAndMark_ok:
  assumes "extractArchive snap fsX target = (fs1, None)"
    and "os_WriteFile fs1 (filepath_Join [target, markerFile]) (ArchiveHash snap) 420 = (fs2, None)"
  shows "extractAndMark snap fsX target = (fs2, True, None)"
  using assms by (simp add: extractAndMark_def)

text \<open>
  Claim C7. After snapshot A was extracted into the target, a call with a snapshot B of a
  different digest and without force fails with \<open>ErrAtomRootExists\<close> and changes nothing.
  With force the target is removed with everything in it, B is extracted, and, when the
  extraction and the write of the marker succeed, the call returns \<open>didExtract = True\<close>
  without error and the marker holds the digest of B.
\<close>

theorem snapshot_conflict_and_force:
  assumes "filepath_IsAbs target" and "filepath_Clean target = target"
    and "EnsureExtracted snapshotA fs target force = (fs1, True, None)"
    and "ArchiveHash snapshotB \<noteq> ArchiveHash snapshotA"
    and "extractArchive snapshotB (fst (os_RemoveAll fs1 target)) target = (fs2, None)"
    and "os_WriteFile fs2 (filepath_Join [target, markerFile]) (ArchiveHash snapshotB) 420
         = (fs3, None)"
  shows "EnsureExtracted snapshotB fs1 target False = (fs1, False, Some ErrAtomRootExists)
       \<and> EnsureExtracted snapshotB fs1 target True = (fs3, True, None)
       \<and> list_all (\<lambda>(k, n). \<not> within target k) (fst (os_RemoveAll fs1 target))
       \<and> os_ReadFile fs3 (filepath_Join [target, markerFile]) = Inr (ArchiveHash snapshotB)
       \<and> markerMatches snapshotB fs3 target"
proof -
  let ?mp = "filepath_Join [target, markerFile]"
  from EnsureExtracted_extracted[OF assms(3)] obtain fsX fsE where
    c: "checkTarget snapshotA fs target force = Inr fsX"
    and e: "extractArchive snapshotA fsX target = (fsE, None)"
    and w: "os_WriteFile fsE ?mp (ArchiveHash snapshotA) 420 = (fs1, None)"
    by blast
  note nb = checkTarget_Inr_nonblank[OF c]
  from marked_target(1)[OF extractArchive_ok_dir[OF e] w] obtain m where
    st: "os_Stat fs1 target = Inr (FileInfo True m)" by blast
  from os_WriteFile_ok(1)[OF w] have rd: "os_ReadFile fs1 ?mp = Inr (ArchiveHash snapshotA)" .
  with assms(4) have nm: "\<not> markerMatches snapshotB fs1 target"
    by (simp add: markerMatches_def TrimSpace_ArchiveHash)
  from rd obtain n where "lookup fs1 ?mp = Some n"
    by (auto simp: os_ReadFile_def split: option.splits)
  then have ne: "\<not> dirEmpty fs1 target"
    using marker_path[OF assms(1,2)] by (intro child_not_dirEmpty[of fs1 ?mp n]) simp_all
  have a: "EnsureExtracted snapshotB fs1 target False = (fs1, False, Some ErrAtomRootExists)"
    using nb st nm ne by (intro EnsureExtracted_conflict[of target fs1 "FileInfo True m"]) simp_all
  have "checkTarget snapshotB fs1 target True = Inr (fst (os_RemoveAll fs1 target))"
    using nb st nm by (simp add: checkTarget_def os_RemoveAll_def)
  with extractAndMark_ok[OF assms(5,6)]
  have b: "EnsureExtracted snapshotB fs1 target True = (fs3, True, None)"
    by (simp add: EnsureExtracted_def)
  have r: "list_all (\<lambda>(k, n). \<not> within target k) (fst (os_RemoveAll fs1 target))"
    by (auto simp: os_RemoveAll_def list_all_iff)
  from os_WriteFile_ok(1)[OF assms(6)] have rb: "os_ReadFile fs3 ?mp = Inr (ArchiveHash snapshotB)" .
  then have "markerMatches snapshotB fs3 target"
    by (simp add: markerMatches_def TrimSpace_ArchiveHash)
  with a b r rb show ?thesis by simp
qed

theorem snapshot_conflict_and_force_witness:
  "filepath_IsAbs ''/srv/atom'' \<and> filepath_Clean ''/srv/atom'' = ''/srv/atom''
   \<and> EnsureExtracted snapA fsEmpty ''/srv/atom'' False = (fsMarkedA, True, None)
   \<and> ArchiveHash snapB \<noteq> ArchiveHash snapA
   \<and> extractArchive snapB (fst (os_RemoveAll fsMarkedA ''/srv/atom'')) ''/srv/atom''
       = (fsExtractedB, None)
   \<and> os_WriteFile fsExtractedB (filepath_Join [''/srv/atom'', markerFile]) (ArchiveHash snapB) 420
       = (fsMarkedB, None)
   \<and> EnsureExtracted snapB fsMarkedA ''/srv/atom'' False = (fsMarkedA, False, Some ErrAtomRootExists)
   \<and> EnsureExtracted snapB fsMarkedA ''/srv/atom'' True = (fsMarkedB, True, None)
   \<and> fst (os_RemoveAll fsMarkedA ''/srv/atom'') = fsEmpty
   \<and> os_ReadFile fsMarkedB (filepath_Join [''/srv/atom'', markerFile]) = Inr (ArchiveHash snapB)
   \<and> markerMatches snapB fsMarkedB ''/srv/atom''"
proof -
  have h1: "filepath_IsAbs ''/srv/atom''" by code_simp
  have h2: "filepath_Clean ''/srv/atom'' = ''/srv/atom''" by code_simp
  have h3: "EnsureExtracted snapA fsEmpty ''/srv/atom'' False = (fsMarkedA, True, None)" by code_simp
  have h4: "ArchiveHash snapB \<noteq> ArchiveHash snapA" by code_simp
  have h5: "extractArchive snapB (fst (os_RemoveAll fsMarkedA ''/srv/atom'')) ''/srv/atom''
       = (fsExtractedB, None)" by code_simp
  have h6: "os_WriteFile fsExtractedB (filepath_Join [''/srv/atom'', markerFile]) (ArchiveHash snapB) 420
       = (fsMarkedB, None)" by code_simp
  have r: "fst (os_RemoveAll fsMarkedA ''/srv/atom'') = fsEmpty" by code_simp
  from snapshot_conflict_and_force[OF h1 h2 h3 h4 h5 h6] h1 h2 h3 h4 h5 h6 r show ?thesis by simp
qed

lemma ReadFile_changes:
  assumes "changes A fs fs'"
    and "\<And>n. A q n \<Longrightarrow> (case n of File m d \<Rightarrow> P d | _ \<Rightarrow> True)"
    and "case os_ReadFile fs q of Inl e \<Rightarrow> True | Inr d \<Rightarrow> P d"
  shows "case os_ReadFile fs' q of Inl e \<Rightarrow> True | Inr d \<Rightarrow> P d"
proof -
  from assms(1) consider "lookup fs' q = lookup fs q" | n where "lookup fs' q = Some n" "A q n"
    unfolding changes_def by blast
  then show ?thesis
  proof cases
    case 1
    with assms(3) show ?thesis by (simp add: os_ReadFile_def)
  next
    case 2
    with assms(2)[OF 2(2)] show ?thesis
      by (auto simp: os_ReadFile_def split: node.splits)
  qed
qed

lemma extractArchive_changes_any:
  assumes "extractArchive snap fs target = (fs', r)"
  shows "changes (\<lambda>q n. entriesNode (entries snap) n \<or> n = Dir 493) fs fs'"
proof (cases "ArchiveAvailable snap")
  case False
  with assms show ?thesis by (simp add: extractArchive_def changes_refl)
next
  case True
  obtain fsM rM where m: "os_MkdirAll fs target 493 = (fsM, rM)"
    by (cases "os_MkdirAll fs target 493")
  have c1: "changes (\<lambda>q n. entriesNode (entries snap) n \<or> n = Dir 493) fs fsM"
    by (rule changes_mono[OF os_MkdirAll_changes[OF m]]) simp
  show ?thesis
  proof (cases "rM = None \<and> gzipErr snap = None")
    case False
    with True m assms have "fs' = fsM"
      by (auto simp: extractArchive_def split: option.splits)
    with c1 show ?thesis by simp
  next
    case ok: True
    with True m assms have "extractEntries fsM target (entries snap) (streamErr snap) = (fs', r)"
      by (simp add: extractArchive_def)
    then have "changes (\<lambda>q n. entriesNode (entries snap) n \<or> n = Dir 493) fsM fs'"
      by (rule changes_mono[OF extractEntries_changes_any]) simp
    with c1 show ?thesis by (rule changes_trans)
  qed
qed

lemma entriesNode_data:
  assumes "list_all (\<lambda>hdr. P (Data hdr)) es" and "entriesNode es n \<or> n = Dir 493"
  shows "case n of File m d \<Rightarrow> P d | _ \<Rightarrow> True"
  using assms
  by (auto simp: entriesNode_def entryNode_def list_all_iff list_ex_iff split: node.splits)

lemma markerMatches_alt:
  "\<not> markerMatches snap fs target \<longleftrightarrow>
     (case os_ReadFile fs (filepath_Join [target, markerFile]) of
        Inl e \<Rightarrow> True | Inr d \<Rightarrow> strings_TrimSpace d \<noteq> ArchiveHash snap)"
  by (simp add: markerMatches_def split: sum.splits)

lemma extractArchive_no_marker:
  assumes "extractArchive snap fs target = (fs', r)"
    and "list_all (\<lambda>hdr. strings_TrimSpace (Data hdr) \<noteq> ArchiveHash snap) (entries snap)"
    and "\<not> markerMatches snap fs target"
  shows "\<not> markerMatches snap fs' target"
  unfolding markerMatches_alt
  by (rule ReadFile_changes[OF extractArchive_changes_any[OF assms(1)]])
    (use assms(2,3) entriesNode_data in \<open>auto simp: markerMatches_alt\<close>)

lemma wellFormed_parent:
  assumes "wellFormed fs" and "lookup fs q = Some n" and "q \<noteq> ''/''" and "q \<noteq> ''.''"
  shows "isDirNode (lookup fs (parentDir q))"
  using assms(1) lookup_key[OF assms(2-4)] by (auto simp: wellFormed_def list_all_iff)

lemma checkTarget_no_marker:
  assumes "filepath_IsAbs target" and "filepath_Clean target = target" and "wellFormed fs"
    and "checkTarget snap fs target force = Inr fsX"
  shows "\<not> markerMatches snap fsX target"
proof -
  let ?mp = "filepath_Join [target, markerFile]"
  note mp = marker_path[OF assms(1,2)]
  show ?thesis
  proof (cases "os_Stat fs target")
    case (Inl err)
    with assms(4) have fsX: "fsX = fs" and "err = ENOENT"
      by (auto simp: checkTarget_def isNotExist_def split: if_splits)
    with Inl have "\<not> isDirNode (lookup fs target)"
      by (auto simp: os_Stat_def isDirNode_def split: option.splits node.splits)
    with wellFormed_parent[OF assms(3), of ?mp] mp have "lookup fs ?mp = None"
      by (cases "lookup fs ?mp") auto
    with fsX show ?thesis by (simp add: markerMatches_def os_ReadFile_def)
  next
    case (Inr info)
    show ?thesis
    proof (cases force)
      case True
      with Inr assms(4) have fsX: "fsX = fst (os_RemoveAll fs target)"
        by (auto simp: checkTarget_def os_RemoveAll_def split: if_splits)
      from mp have "lookup (fst (os_RemoveAll fs target)) ?mp = None"
        by (simp add: lookup_RemoveAll)
      with fsX show ?thesis by (simp add: markerMatches_def os_ReadFile_def)
    next
      case False
      with Inr assms(4) show ?thesis
        by (auto simp: checkTarget_def split: if_splits)
    qed
  qed
qed

lemma extractAndMark_result: "snd (extractAndMark snap fs target) \<noteq> (False, None)"
  by (auto simp: extractAndMark_def split: prod.splits option.splits)

lemma EnsureExtracted_not_up_to_date:
  assumes "\<not> markerMatches snap fs target"
  shows "snd (EnsureExtracted snap fs target force) \<noteq> (False, None)"
proof (cases "checkTarget snap fs target force")
  case (Inl res)
  with assms have "snd res \<noteq> (False, None)"
    by (auto simp: checkTarget_def os_RemoveAll_def split: if_splits sum.splits)
  with Inl show ?thesis by (simp add: EnsureExtracted_def)
next
  case (Inr fsX)
  with extractAndMark_result[of snap fsX target] show ?thesis
    by (simp add: EnsureExtracted_def)
qed

text \<open>
  Claim C8. The marker is written only after \<^verbatim>\<open>extractArchive\<close> returned without error.
  When the extraction fails, on any entry or on the stream, \<^verbatim>\<open>EnsureExtracted\<close> returns
  \<open>didExtract = False\<close> with that error and writes no marker; the partial tree carries no
  marker with the digest of the snapshot, so a later call never answers "up to date"
  (\<open>False\<close> without error): it extracts again or reports an error. The snapshot is assumed
  not to contain its own digest as the content of an entry.
\<close>

theorem marker_only_after_full_extraction:
  assumes "filepath_IsAbs target" and "filepath_Clean target = target" and "wellFormed fs"
    and "list_all (\<lambda>hdr. strings_TrimSpace (Data hdr) \<noteq> ArchiveHash snap) (entries snap)"
    and "checkTarget snap fs target force = Inr fsX"
    and "extractArchive snap fsX target = (fs1, Some err)"
  shows "EnsureExtracted snap fs target force = (fs1, False, Some err)
       \<and> \<not> markerMatches snap fs1 target
       \<and> snd (EnsureExtracted snap fs1 target force') \<noteq> (False, None)"
proof -
  from assms(5,6) have a: "EnsureExtracted snap fs target force = (fs1, False, Some err)"
    by (simp add: EnsureExtracted_def extractAndMark_def)
  have "\<not> markerMatches snap fsX target"
    using assms(1,2,3,5) by (rule checkTarget_no_marker)
  with assms(6,4) have b: "\<not> markerMatches snap fs1 target"
    by (rule extractArchive_no_marker)
  then have "snd (EnsureExtracted snap fs1 target force') \<noteq> (False, None)"
    by (rule EnsureExtracted_not_up_to_date)
  with a b show ?thesis by simp
qed

theorem marker_only_after_full_extraction_witness:
  "filepath_IsAbs ''/srv/atom'' \<and> filepath_Clean ''/srv/atom'' = ''/srv/atom''
   \<and> wellFormed fsEmpty
   \<and> list_all (\<lambda>hdr. strings_TrimSpace (Data hdr) \<noteq> ArchiveHash snapTruncated)
        (entries snapTruncated)
   \<and> checkTarget snapTruncated fsEmpty ''/srv/atom'' False = Inr fsEmpty
   \<and> extractArchive snapTruncated fsEmpty ''/srv/atom'' = (fsExtractedB, Some ErrTarStream)
   \<and> EnsureExtracted snapTruncated fsEmpty ''/srv/atom'' False
       = (fsExtractedB, False, Some ErrTarStream)
   \<and> \<not> markerMatches snapTruncated fsExtractedB ''/srv/atom''
   \<and> EnsureExtracted snapTruncated fsExtractedB ''/srv/atom'' False
       = (fsExtractedB, False, Some ErrAtomRootExists)
   \<and> snd (EnsureExtracted snapTruncated fsExtractedB ''/srv/atom'' True) \<noteq> (False, None)"
proof -
  have h1: "filepath_IsAbs ''/srv/atom''" by code_simp
  have h2: "filepath_Clean ''/srv/atom'' = ''/srv/atom''" by code_simp
  have h3: "wellFormed fsEmpty" by code_simp
  have h4: "list_all (\<lambda>hdr. strings_TrimSpace (Data hdr) \<noteq> ArchiveHash snapTruncated)
        (entries snapTruncated)" by code_simp
  have h5: "checkTarget snapTruncated fsEmpty ''/srv/atom'' False = Inr fsEmpty" by code_simp
  have h6: "extractArchive snapTruncated fsEmpty ''/srv/atom'' = (fsExtractedB, Some ErrTarStream)"
    by code_simp
  have l: "EnsureExtracted snapTruncated fsExtractedB ''/srv/atom'' False
       = (fsExtractedB, False, Some ErrAtomRootExists)" by code_simp
  from marker_only_after_full_extraction[OF h1 h2 h3 h4 h5 h6, of True] h1 h2 h3 h4 h5 h6 l
  show ?thesis by simp
qed

section \<open>Properties of entry names\<close>






















section \<open>Containment of the extraction\<close>











end
